theory Spec2Isabelle
  imports Main "HOL-Library.Multiset" "HOL-Library.Monad_Syntax"
begin

section \<open>Data model of \<open>sat_solver.c\<close>\<close>

text \<open>
  A literal is the pair of a variable number and a negation flag. The parser stores
  \<open>abs(lit)\<close> of a non-zero token, so the variable is a positive number; it is a
  natural number here.
\<close>

record Literal =
  var :: nat
  neg :: bool

text \<open>
  A clause owns its literal vector and a mutable \<open>satisfied\<close> flag. The C field
  \<open>size\<close> is the length of the vector and never changes.
\<close>

record Clause =
  literals :: "Literal list"
  satisfied :: bool

record Formula =
  numVars :: nat
  clauses :: "Clause list"

datatype UndoEntry =
    ASSIGNMENT nat
  | CLAUSE_SATISFY nat
  | WATCHLIST_ADD nat nat
  | WATCHLIST_REMOVE nat nat

datatype DPLLReturnType = SAT | UNSAT | TIMEOUT

text \<open>
  The search mutates four objects in place: the formula (only the flags), the assignment
  array (\<open>-1\<close> unassigned, \<open>0\<close> false, \<open>1\<close> true; index 0 unused), the undo stack
  (head first) and the array of watch lists. \<open>polls\<close> counts the calls of
  \<open>timeout_exceeded\<close> made so far: the clock is outside the program, and an oracle
  gives the answer of each poll.
\<close>

record State =
  formula :: Formula
  assignments :: "int list"
  stack :: "UndoEntry list"
  watch_lists :: "nat list list"
  polls :: nat

definition clause_at :: "State \<Rightarrow> nat \<Rightarrow> Clause" where
  "clause_at st i = clauses (formula st) ! i"

definition watchlist_index :: "Literal \<Rightarrow> nat \<Rightarrow> nat" where
  "watchlist_index lit n = var lit + (if neg lit then n else 0)"

text \<open>The test \<open>(as == 0 && lit.neg) || (as == 1 && !lit.neg)\<close>.\<close>

definition lit_true :: "int list \<Rightarrow> Literal \<Rightarrow> bool" where
  "lit_true a lit = ((a ! var lit = 0 \<and> neg lit) \<or> (a ! var lit = 1 \<and> \<not> neg lit))"

text \<open>The test \<open>(assign == 0 && !tlit.neg) || (assign == 1 && tlit.neg)\<close>.\<close>

definition lit_false :: "int list \<Rightarrow> Literal \<Rightarrow> bool" where
  "lit_false a lit = ((a ! var lit = 0 \<and> \<not> neg lit) \<or> (a ! var lit = 1 \<and> neg lit))"

section \<open>Undo stack\<close>

definition push_assignment :: "nat \<Rightarrow> State \<Rightarrow> State" where
  "push_assignment v st = st\<lparr>stack := ASSIGNMENT v # stack st\<rparr>"

definition push_clause_satisfy :: "nat \<Rightarrow> State \<Rightarrow> State" where
  "push_clause_satisfy i st = st\<lparr>stack := CLAUSE_SATISFY i # stack st\<rparr>"

definition set_satisfied :: "nat \<Rightarrow> bool \<Rightarrow> State \<Rightarrow> State" where
  "set_satisfied i b st =
     st\<lparr>formula := (formula st)\<lparr>clauses :=
        (clauses (formula st))[i := (clauses (formula st) ! i)\<lparr>satisfied := b\<rparr>]\<rparr>\<rparr>"

definition set_assignment :: "nat \<Rightarrow> int \<Rightarrow> State \<Rightarrow> State" where
  "set_assignment v x st = st\<lparr>assignments := (assignments st)[v := x]\<rparr>"

text \<open>\<open>watchtable_add\<close> appends the clause index and logs the addition.\<close>

definition watchtable_add :: "nat \<Rightarrow> nat \<Rightarrow> State \<Rightarrow> State" where
  "watchtable_add index val st =
     st\<lparr>watch_lists := (watch_lists st)[index := watch_lists st ! index @ [val]],
        stack := WATCHLIST_ADD index val # stack st\<rparr>"

text \<open>\<open>watchtable_remove\<close> removes the first occurrence, if any, and logs the removal
  in either case.\<close>

definition watchtable_remove :: "nat \<Rightarrow> nat \<Rightarrow> State \<Rightarrow> State" where
  "watchtable_remove index val st =
     st\<lparr>watch_lists := (watch_lists st)[index := remove1 val (watch_lists st ! index)],
        stack := WATCHLIST_REMOVE index val # stack st\<rparr>"

text \<open>The inverse action of one entry, as the body of the loop of
  \<open>undo_to_checkpoint\<close> applies it.\<close>

fun undo_entry :: "UndoEntry \<Rightarrow> State \<Rightarrow> State" where
  "undo_entry (ASSIGNMENT v) st = set_assignment v (- 1) st"
| "undo_entry (WATCHLIST_ADD index val) st =
     st\<lparr>watch_lists := (watch_lists st)[index := remove1 val (watch_lists st ! index)]\<rparr>"
| "undo_entry (WATCHLIST_REMOVE index val) st =
     st\<lparr>watch_lists := (watch_lists st)[index := watch_lists st ! index @ [val]]\<rparr>"
| "undo_entry (CLAUSE_SATISFY i) st = set_satisfied i False st"

text \<open>
  A checkpoint is a pointer into the stack; since entries below the head are never
  touched, it is the number of entries the stack held when the checkpoint was taken.
  The loop pops until the head is the checkpoint. On a stack that is exhausted before
  the checkpoint is met the C code dereferences \<open>NULL\<close>: the result \<open>None\<close>.
\<close>

fun undo_loop :: "nat \<Rightarrow> UndoEntry list \<Rightarrow> State \<Rightarrow> State option" where
  "undo_loop cp [] st = (if cp = 0 then Some (st\<lparr>stack := []\<rparr>) else None)"
| "undo_loop cp (e # rest) st =
     (if length (e # rest) = cp then Some (st\<lparr>stack := e # rest\<rparr>)
      else undo_loop cp rest (undo_entry e st))"

definition undo_to_checkpoint :: "nat \<Rightarrow> State \<Rightarrow> State option" where
  "undo_to_checkpoint cp st = undo_loop cp (stack st) st"

section \<open>Marking clauses\<close>

text \<open>The guarded flip \<open>if (!clause->satisfied) { clause->satisfied = true;
  push_clause_satisfy(...) }\<close>.\<close>

definition mark_clause :: "nat \<Rightarrow> State \<Rightarrow> State" where
  "mark_clause i st =
     (if satisfied (clause_at st i) then st
      else push_clause_satisfy i (set_satisfied i True st))"

text \<open>Assigning a literal true inside the propagator: the assignment, its log entry,
  and the flip of every clause in the literal's watch list.\<close>

definition force_literal :: "Literal \<Rightarrow> State \<Rightarrow> State" where
  "force_literal lit st =
     (let st1 = push_assignment (var lit)
                  (set_assignment (var lit) (if neg lit then 0 else 1) st)
      in fold mark_clause (watch_lists st1 ! watchlist_index lit (numVars (formula st1))) st1)"

text \<open>\<open>satisfy_clauses_after_assignment\<close>: every unflagged clause with a true
  literal is flagged and logged.\<close>

definition satisfy_step :: "nat \<Rightarrow> State \<Rightarrow> State" where
  "satisfy_step i st =
     (if satisfied (clause_at st i) then st
      else if list_ex (lit_true (assignments st)) (literals (clause_at st i))
           then push_clause_satisfy i (set_satisfied i True st)
           else st)"

definition satisfy_clauses_after_assignment :: "State \<Rightarrow> State" where
  "satisfy_clauses_after_assignment st =
     fold satisfy_step [0..<length (clauses (formula st))] st"

section \<open>Two-watched-literal propagation\<close>

text \<open>Seeding: the scan of one clause counts the literals whose variable is unassigned
  and keeps the first of them.\<close>

fun seed_scan :: "int list \<Rightarrow> Literal list \<Rightarrow> nat \<times> Literal option \<Rightarrow> nat \<times> Literal option" where
  "seed_scan a [] acc = acc"
| "seed_scan a (lit # ls) (cnt, cp) =
     (if a ! var lit = - 1
      then seed_scan a ls (cnt + 1, if cnt = 0 then Some lit else cp)
      else seed_scan a ls (cnt, cp))"

definition seed_clause :: "int list \<Rightarrow> Clause \<Rightarrow> Literal list" where
  "seed_clause a c =
     (if satisfied c then []
      else case seed_scan a (literals c) (0, None) of
             (cnt, Some lit) \<Rightarrow> if cnt = 1 then [lit] else []
           | (cnt, None) \<Rightarrow> [])"

fun seed_loop :: "int list \<Rightarrow> Clause list \<Rightarrow> Literal list \<Rightarrow> Literal list" where
  "seed_loop a [] queue = queue"
| "seed_loop a (c # cs) queue = seed_loop a cs (queue @ seed_clause a c)"

definition seed_queue :: "State \<Rightarrow> Literal list" where
  "seed_queue st = seed_loop (assignments st) (clauses (formula st)) []"

text \<open>The search for the other watched literal of clause \<open>indexi\<close>: the first literal
  different from \<open>oplit\<close> whose watch list holds \<open>indexi\<close>. The C code uses the
  variable 0 for "none".\<close>

definition no_literal :: Literal where
  "no_literal = \<lparr>var = 0, neg = False\<rparr>"

fun find_other :: "nat list list \<Rightarrow> nat \<Rightarrow> Literal \<Rightarrow> nat \<Rightarrow> Literal list \<Rightarrow> Literal" where
  "find_other wl n oplit indexi [] = no_literal"
| "find_other wl n oplit indexi (l # ls) =
     (if var l = var oplit \<and> neg l = neg oplit then find_other wl n oplit indexi ls
      else let other = (if indexi \<in> set (wl ! watchlist_index l n) then l else no_literal)
           in if var other \<noteq> 0 then other else find_other wl n oplit indexi ls)"

text \<open>The search for a replacement watch: the first literal that is neither keyed like
  the visited list nor the other watch, and is unassigned or true.\<close>

fun find_replacement :: "int list \<Rightarrow> nat \<Rightarrow> nat \<Rightarrow> Literal \<Rightarrow> Literal list \<Rightarrow> Literal option" where
  "find_replacement a n index other [] = None"
| "find_replacement a n index other (nlit # ls) =
     (if watchlist_index nlit n = index \<or> (var nlit = var other \<and> neg nlit = neg other)
      then find_replacement a n index other ls
      else if a ! var nlit = - 1 \<or> (a ! var nlit = 0 \<and> neg nlit) \<or> (a ! var nlit = 1 \<and> \<not> neg nlit)
           then Some nlit
           else find_replacement a n index other ls)"

text \<open>The body of the loop over the watch list of the opposite literal, for the clause
  \<open>indexi\<close> read at the current position. The result is the flag "no conflict", the
  state and the queue (freed on a conflict).\<close>

definition visit_clause :: "nat \<Rightarrow> Literal \<Rightarrow> nat \<Rightarrow> State \<Rightarrow> Literal list \<Rightarrow> bool \<times> State \<times> Literal list" where
  "visit_clause index oplit indexi st queue =
     (let n = numVars (formula st); clause = clause_at st indexi in
      if satisfied clause then (True, st, queue)
      else
        let other = find_other (watch_lists st) n oplit indexi (literals clause) in
        if var other = 0 then
          (if list_all (lit_false (assignments st)) (literals clause)
           then (False, st, [])
           else (True, st, queue @ [oplit]))
        else if lit_true (assignments st) other then (True, st, queue)
        else
          (case find_replacement (assignments st) n index other (literals clause) of
             Some nlit \<Rightarrow>
               (True,
                watchtable_add (watchlist_index nlit n) indexi (watchtable_remove index indexi st),
                queue)
           | None \<Rightarrow>
               if assignments st ! var other = - 1
               then (True, force_literal other st, queue @ [other])
               else (False, st, [])))"

lemma watch_lists_mark_clause [simp]: "watch_lists (mark_clause i st) = watch_lists st"
  by (simp add: mark_clause_def push_clause_satisfy_def set_satisfied_def)

lemma watch_lists_fold_mark [simp]: "watch_lists (fold mark_clause xs st) = watch_lists st"
  by (induction xs arbitrary: st) simp_all

lemma watch_lists_force_literal [simp]: "watch_lists (force_literal lit st) = watch_lists st"
  by (simp add: force_literal_def Let_def push_assignment_def set_assignment_def)

lemma find_replacement_index:
  "find_replacement a n index other ls = Some nlit \<Longrightarrow> watchlist_index nlit n \<noteq> index"
  by (induction ls) (auto split: if_splits)

lemma length_remove1_le: "length (remove1 x xs) \<le> length xs"
  by (induction xs) auto

lemma relocate_length:
  assumes "k \<noteq> index"
  shows "length (watch_lists (watchtable_add k v (watchtable_remove index v st)) ! index)
     \<le> length (watch_lists st ! index)"
proof (cases "index < length (watch_lists st)")
  case True
  then show ?thesis using assms
    by (simp add: watchtable_add_def watchtable_remove_def length_remove1_le)
next
  case False
  then have "(watch_lists st)[index := remove1 v (watch_lists st ! index)] = watch_lists st"
    by (simp add: list_update_beyond)
  then show ?thesis using assms
    by (simp add: watchtable_add_def watchtable_remove_def)
qed

lemma visit_clause_length:
  "visit_clause index oplit indexi st queue = (b, st', queue') \<Longrightarrow>
   length (watch_lists st' ! index) \<le> length (watch_lists st ! index)"
  by (auto simp: visit_clause_def Let_def relocate_length
           dest: find_replacement_index split: if_splits option.splits)


text \<open>The loop \<open>for (i = 0; i < wlist->len; i++)\<close> over the watch list of the opposite
  literal. The list is read afresh at every step: a relocation removes the visited
  entry from this very list, and the position still advances by one.\<close>

function visit_watchers :: "nat \<Rightarrow> Literal \<Rightarrow> nat \<Rightarrow> State \<Rightarrow> Literal list \<Rightarrow> bool \<times> State \<times> Literal list" where
  "visit_watchers index oplit i st queue =
     (if i < length (watch_lists st ! index)
      then (case visit_clause index oplit (watch_lists st ! index ! i) st queue of
              (ok, st', queue') \<Rightarrow>
                if ok then visit_watchers index oplit (i + 1) st' queue'
                else (False, st', queue'))
      else (True, st, queue))"
  by pat_completeness auto
termination
  apply (relation "measure (\<lambda>(index, oplit, i, st, queue). length (watch_lists st ! index) - i)")
   apply simp
  apply (auto dest!: sym [of "(_, _)" "visit_clause _ _ _ _ _"] visit_clause_length)
  done

declare visit_watchers.simps [simp del]

text \<open>One turn of the main loop, for the literal popped from the head of the queue.\<close>

definition propagate_literal :: "Literal \<Rightarrow> State \<Rightarrow> Literal list \<Rightarrow> bool \<times> State \<times> Literal list" where
  "propagate_literal lit st queue =
     (let st1 = (if assignments st ! var lit = - 1 then force_literal lit st else st);
          oplit = \<lparr>var = var lit, neg = \<not> neg lit\<rparr>;
          index = watchlist_index oplit (numVars (formula st1))
      in visit_watchers index oplit 0 st1 queue)"

text \<open>The loop \<open>while (!g_queue_is_empty(queue))\<close>. Nothing in the code bounds the
  number of its turns, so the loop is a partial function: \<open>None\<close> is "does not
  return".\<close>

partial_function (option) propagate_loop :: "State \<Rightarrow> Literal list \<Rightarrow> (bool \<times> State) option" where
  "propagate_loop st queue =
     (case queue of
        [] \<Rightarrow> Some (True, st)
      | lit # rest \<Rightarrow>
          (case propagate_literal lit st rest of
             (ok, st', queue') \<Rightarrow>
               if ok then propagate_loop st' queue' else Some (False, st')))"

declare propagate_loop.simps [code]

definition unit_propagate_2watchlit :: "State \<Rightarrow> (bool \<times> State) option" where
  "unit_propagate_2watchlit st = propagate_loop st (seed_queue st)"

section \<open>Pure-literal elimination\<close>

text \<open>First loop: the polarities seen among the literals with an unassigned variable
  in the unflagged clauses, in two boolean arrays of length \<open>numVars + 1\<close>.\<close>

definition note_literal :: "int list \<Rightarrow> Literal \<Rightarrow> bool list \<times> bool list \<Rightarrow> bool list \<times> bool list" where
  "note_literal a lit pn =
     (if a ! var lit \<noteq> - 1 then pn
      else if neg lit then (fst pn, (snd pn)[var lit := True])
      else ((fst pn)[var lit := True], snd pn))"

definition note_clause :: "int list \<Rightarrow> Clause \<Rightarrow> bool list \<times> bool list \<Rightarrow> bool list \<times> bool list" where
  "note_clause a c pn = (if satisfied c then pn else fold (note_literal a) (literals c) pn)"

definition polarity_units :: "State \<Rightarrow> bool list \<times> bool list" where
  "polarity_units st =
     fold (note_clause (assignments st)) (clauses (formula st))
       (replicate (numVars (formula st) + 1) False, replicate (numVars (formula st) + 1) False)"

text \<open>Second loop: every unassigned variable seen with one polarity only is assigned
  and logged, and marked in \<open>lit_purity\<close>.\<close>

definition purify_var :: "bool list \<times> bool list \<Rightarrow> nat \<Rightarrow> State \<times> bool list \<Rightarrow> State \<times> bool list" where
  "purify_var pn v sp =
     (let st = fst sp; lit_purity = snd sp in
      if assignments st ! v \<noteq> - 1 then sp
      else if fst pn ! v \<and> \<not> snd pn ! v
           then (push_assignment v (set_assignment v 1 st), lit_purity[v := True])
      else if \<not> fst pn ! v \<and> snd pn ! v
           then (push_assignment v (set_assignment v 0 st), lit_purity[v := True])
      else sp)"

definition assign_pure :: "State \<Rightarrow> State \<times> bool list" where
  "assign_pure st =
     fold (purify_var (polarity_units st)) [1..<numVars (formula st) + 1]
       (st, replicate (numVars (formula st) + 1) False)"

text \<open>Third loop: every clause with a literal on a variable marked pure gets its flag
  set and an entry pushed. The loop does not look at the flag.\<close>

definition pure_mark_step :: "bool list \<Rightarrow> nat \<Rightarrow> State \<Rightarrow> State" where
  "pure_mark_step lit_purity i st =
     (if list_ex (\<lambda>l. lit_purity ! var l) (literals (clause_at st i))
      then push_clause_satisfy i (set_satisfied i True st)
      else st)"

definition pure_literal_elimination :: "State \<Rightarrow> bool \<times> State" where
  "pure_literal_elimination st =
     (let sp = assign_pure st
      in (True, fold (pure_mark_step (snd sp)) [0..<length (clauses (formula st))] (fst sp)))"

section \<open>The branching heuristic\<close>

text \<open>\<open>compare_desc\<close>: the difference of the counts, second minus first.\<close>

definition compare_desc :: "int list \<Rightarrow> nat \<Rightarrow> nat \<Rightarrow> int" where
  "compare_desc cnt idx1 idx2 = cnt ! idx2 - cnt ! idx1"

text \<open>
  \<open>get_sorted_indices\<close> fills an array with \<open>0, \<dots>, numVars\<close> and hands it to
  \<open>qsort_r\<close> of the C library, which is not code of this program: it is the parameter
  \<open>qs\<close>, applied to the comparison function and the array.
\<close>

definition get_sorted_indices :: "((nat \<Rightarrow> nat \<Rightarrow> int) \<Rightarrow> nat list \<Rightarrow> nat list) \<Rightarrow> int list \<Rightarrow> nat \<Rightarrow> nat list" where
  "get_sorted_indices qs counter n = qs (compare_desc counter) [0..<n + 1]"

text \<open>The occurrence counter of \<open>main\<close>: one increment per literal of every clause.\<close>

definition count_occurrences :: "Formula \<Rightarrow> int list" where
  "count_occurrences f =
     fold (\<lambda>c cnt. fold (\<lambda>lit cnt. cnt[var lit := cnt ! var lit + 1]) (literals c) cnt)
       (clauses f) (replicate (numVars f + 1) 0)"

text \<open>\<open>pick_unassigned_variable\<close> reads the first \<open>numVars\<close> entries of the order and
  stops at the entry 0. \<open>None\<close> is the result \<open>-1\<close>.\<close>

fun pick_loop :: "int list \<Rightarrow> nat list \<Rightarrow> nat option" where
  "pick_loop a [] = None"
| "pick_loop a (v # vs) =
     (if v = 0 then None
      else if a ! v = - 1 then Some v
      else pick_loop a vs)"

definition pick_unassigned_variable :: "nat list \<Rightarrow> State \<Rightarrow> nat option" where
  "pick_unassigned_variable var_sort st =
     pick_loop (assignments st) (take (numVars (formula st)) var_sort)"

section \<open>The DPLL driver\<close>

text \<open>The sweep of \<open>dpll\<close>: an unflagged clause with a true literal is flagged and
  logged; the first unflagged clause without one ends the loop with
  \<open>all_satisfied = false\<close>.\<close>

fun sweep_loop :: "nat list \<Rightarrow> State \<Rightarrow> bool \<times> State" where
  "sweep_loop [] st = (True, st)"
| "sweep_loop (i # is) st =
     (if \<not> satisfied (clause_at st i)
      then (if list_ex (lit_true (assignments st)) (literals (clause_at st i))
            then sweep_loop is (push_clause_satisfy i (set_satisfied i True st))
            else (False, st))
      else sweep_loop is st)"

definition sweep :: "State \<Rightarrow> bool \<times> State" where
  "sweep st = sweep_loop [0..<length (clauses (formula st))] st"

text \<open>The decision \<open>assignments[x] = value\<close> with its log entry and the flips it
  causes.\<close>

definition decide :: "nat \<Rightarrow> int \<Rightarrow> State \<Rightarrow> State" where
  "decide x value st =
     satisfy_clauses_after_assignment (push_assignment x (set_assignment x value st))"

text \<open>
  \<open>dpll\<close>. The oracle \<open>tmo\<close> answers the polls of \<open>timeout_exceeded\<close> in order;
  \<open>var_sort\<close> is the static order of the heuristic. The result is the verdict and
  the state the call leaves behind; \<open>None\<close> stands for a call that does not return.
\<close>

partial_function (option) dpll :: "(nat \<Rightarrow> bool) \<Rightarrow> nat list \<Rightarrow> nat \<Rightarrow> State \<Rightarrow> (DPLLReturnType \<times> State) option" where
  "dpll tmo var_sort depth st0 =
     (let st = st0\<lparr>polls := polls st0 + 1\<rparr> in
      if tmo (polls st0) then Some (TIMEOUT, st)
      else
        let checkpoint = length (stack st) in
        do {
          (ok1, st1) \<leftarrow> unit_propagate_2watchlit st;
          if \<not> ok1 then do {
            st2 \<leftarrow> undo_to_checkpoint checkpoint st1;
            Some (UNSAT, st2)
          } else
            let (ok2, st2) = pure_literal_elimination st1 in
            if \<not> ok2 then do {
              st3 \<leftarrow> undo_to_checkpoint checkpoint st2;
              Some (UNSAT, st3)
            } else
              let (all_satisfied, st3) = sweep st2 in
              if all_satisfied then Some (SAT, st3)
              else
                (case pick_unassigned_variable var_sort st3 of
                   None \<Rightarrow> Some (UNSAT, st3)
                 | Some x \<Rightarrow>
                     let checkpoint2 = length (stack st3) in
                     do {
                       (result1, st4) \<leftarrow> dpll tmo var_sort (depth + 1) (decide x 0 st3);
                       if result1 = UNSAT then do {
                         st5 \<leftarrow> undo_to_checkpoint checkpoint2 st4;
                         (result2, st6) \<leftarrow> dpll tmo var_sort (depth + 1) (decide x 1 st5);
                         if result2 = UNSAT then do {
                           st7 \<leftarrow> undo_to_checkpoint checkpoint st6;
                           Some (result2, st7)
                         } else Some (result2, st6)
                       } else Some (result1, st4)
                     })
        })"

declare dpll.simps [code]


section \<open>Subsumption\<close>

definition lit_key :: "Literal \<Rightarrow> int" where
  "lit_key lit = (if neg lit then - int (var lit) else int (var lit))"

text \<open>\<open>clause_subset(a, b)\<close>: every key of \<open>a\<close> is among the keys of \<open>b\<close>.\<close>

definition clause_subset :: "Clause \<Rightarrow> Clause \<Rightarrow> bool" where
  "clause_subset a b = list_all (\<lambda>l. lit_key l \<in> set (map lit_key (literals b))) (literals a)"

text \<open>The inner loop of \<open>remove_supersets\<close> for clause \<open>i\<close>: is there an unmarked
  \<open>j \<noteq> i\<close>, not longer than \<open>i\<close>, whose keys are all in \<open>i\<close>?\<close>

definition subsumed_by_other :: "Clause list \<Rightarrow> bool list \<Rightarrow> nat \<Rightarrow> bool" where
  "subsumed_by_other cs marked i =
     list_ex (\<lambda>j. \<not> (i = j \<or> marked ! j)
                 \<and> length (literals (cs ! j)) \<le> length (literals (cs ! i))
                 \<and> clause_subset (cs ! j) (cs ! i)) [0..<length cs]"

definition mark_step :: "Clause list \<Rightarrow> nat \<Rightarrow> bool list \<Rightarrow> bool list" where
  "mark_step cs i marked =
     (if marked ! i then marked
      else if subsumed_by_other cs marked i then marked[i := True]
      else marked)"

definition remove_marks :: "Clause list \<Rightarrow> bool list" where
  "remove_marks cs = fold (mark_step cs) [0..<length cs] (replicate (length cs) False)"

text \<open>The compaction keeps the unmarked clauses in their order.\<close>

definition remove_supersets :: "Formula \<Rightarrow> Formula" where
  "remove_supersets f =
     (let cs = clauses f; marked = remove_marks cs
      in f\<lparr>clauses := map (\<lambda>i. cs ! i) (filter (\<lambda>i. \<not> marked ! i) [0..<length cs])\<rparr>)"

section \<open>The set-up of \<open>main\<close>\<close>

definition init_empty_watch_table :: "Formula \<Rightarrow> nat list list" where
  "init_empty_watch_table f = replicate (numVars f * 2 + 1) []"

text \<open>A clause is registered under its first literal and, when it has two or more
  literals, under its second literal as well.\<close>

definition watch_clause :: "nat \<Rightarrow> nat \<Rightarrow> Clause \<Rightarrow> nat list list \<Rightarrow> nat list list" where
  "watch_clause n i c wl =
     (case literals c of
        [] \<Rightarrow> wl
      | [l0] \<Rightarrow> wl[watchlist_index l0 n := wl ! watchlist_index l0 n @ [i]]
      | l0 # l1 # ls \<Rightarrow>
          let wl1 = wl[watchlist_index l0 n := wl ! watchlist_index l0 n @ [i]]
          in wl1[watchlist_index l1 n := wl1 ! watchlist_index l1 n @ [i]])"

definition init_watch_table :: "Formula \<Rightarrow> nat list list" where
  "init_watch_table f =
     fold (\<lambda>i. watch_clause (numVars f) i (clauses f ! i)) [0..<length (clauses f)]
       (init_empty_watch_table f)"

text \<open>The assignment array comes from \<open>malloc\<close>; the entries 1 to \<open>numVars\<close> are set
  to \<open>-1\<close>, and entry 0 keeps whatever value \<open>a0\<close> the memory held.\<close>

definition initial_state :: "int \<Rightarrow> Formula \<Rightarrow> State" where
  "initial_state a0 f =
     \<lparr>formula = f, assignments = a0 # replicate (numVars f) (- 1), stack = [],
      watch_lists = init_watch_table f, polls = 0\<rparr>"

definition var_order :: "((nat \<Rightarrow> nat \<Rightarrow> int) \<Rightarrow> nat list \<Rightarrow> nat list) \<Rightarrow> Formula \<Rightarrow> nat list" where
  "var_order qs f = get_sorted_indices qs (count_occurrences f) (numVars f)"

text \<open>\<open>main\<close> from the parsed formula on: subsumption, watch table, order of the
  heuristic, initial assignments, and the one call of \<open>dpll\<close>.\<close>

definition solve :: "((nat \<Rightarrow> nat \<Rightarrow> int) \<Rightarrow> nat list \<Rightarrow> nat list) \<Rightarrow> int \<Rightarrow> (nat \<Rightarrow> bool) \<Rightarrow> Formula
    \<Rightarrow> (DPLLReturnType \<times> State) option" where
  "solve qs a0 tmo parsed =
     (let f = remove_supersets parsed
      in dpll tmo (var_order qs f) 0 (initial_state a0 f))"

text \<open>A stable sort by a comparison function, as an instance of the library's
  \<open>qsort_r\<close> to run the program with.\<close>

fun insert_cmp :: "(nat \<Rightarrow> nat \<Rightarrow> int) \<Rightarrow> nat \<Rightarrow> nat list \<Rightarrow> nat list" where
  "insert_cmp cmp x [] = [x]"
| "insert_cmp cmp x (y # ys) =
     (if cmp x y \<le> 0 then x # y # ys else y # insert_cmp cmp x ys)"

definition stable_qsort :: "(nat \<Rightarrow> nat \<Rightarrow> int) \<Rightarrow> nat list \<Rightarrow> nat list" where
  "stable_qsort cmp xs = foldr (insert_cmp cmp) xs []"

text \<open>Literals and clauses as DIMACS writes them.\<close>

definition dimacs_lit :: "int \<Rightarrow> Literal" where
  "dimacs_lit k = \<lparr>var = nat \<bar>k\<bar>, neg = (k < 0)\<rparr>"

definition cls :: "int list \<Rightarrow> Clause" where
  "cls ks = \<lparr>literals = map dimacs_lit ks, satisfied = False\<rparr>"

definition cnf :: "nat \<Rightarrow> int list list \<Rightarrow> Formula" where
  "cnf n kss = \<lparr>numVars = n, clauses = map cls kss\<rparr>"


text \<open>The clock that never reaches the deadline.\<close>

definition never :: "nat \<Rightarrow> bool" where
  "never k = False"

section \<open>Definitions for stating the properties\<close>

text \<open>The seeds of a clause as the C loop selects them, in closed form: the clause is
  not flagged and exactly one literal occurrence has an unassigned variable.\<close>

definition unassigned_literals :: "int list \<Rightarrow> Clause \<Rightarrow> Literal list" where
  "unassigned_literals a c = filter (\<lambda>l. a ! var l = - 1) (literals c)"

definition seeds_by_flag :: "int list \<Rightarrow> Clause \<Rightarrow> Literal list" where
  "seeds_by_flag a c =
     (if \<not> satisfied c \<and> length (unassigned_literals a c) = 1
      then unassigned_literals a c else [])"

text \<open>Satisfiability of a formula, for the properties of the whole solver: a truth
  assignment makes a literal hold when the variable's value differs from the negation
  flag, a clause when one of its literals holds, a formula when all clauses hold.\<close>

definition lit_holds :: "(nat \<Rightarrow> bool) \<Rightarrow> Literal \<Rightarrow> bool" where
  "lit_holds A l = (A (var l) \<noteq> neg l)"

definition clause_holds :: "(nat \<Rightarrow> bool) \<Rightarrow> Clause \<Rightarrow> bool" where
  "clause_holds A c = list_ex (lit_holds A) (literals c)"

definition satisfiable :: "Formula \<Rightarrow> bool" where
  "satisfiable f = (\<exists>A. list_all (clause_holds A) (clauses f))"

text \<open>What the parser guarantees of every literal: the variable is not 0 (a token 0
  ends the clause).\<close>

definition positive_vars :: "Formula \<Rightarrow> bool" where
  "positive_vars f = list_all (\<lambda>c. list_all (\<lambda>l. 0 < var l) (literals c)) (clauses f)"

text \<open>The marks of \<open>remove_supersets\<close> are sound when every marked clause includes,
  key for key, a clause that is not marked.\<close>

definition marks_ok :: "Clause list \<Rightarrow> bool list \<Rightarrow> bool" where
  "marks_ok cs m = (length m = length cs \<and>
     (\<forall>i < length cs. m ! i \<longrightarrow> (\<exists>j < length cs. \<not> m ! j \<and> clause_subset (cs ! j) (cs ! i))))"

text \<open>The number of literal occurrences of a variable in a formula, both polarities.\<close>

definition occurrences :: "Formula \<Rightarrow> nat \<Rightarrow> nat" where
  "occurrences f v = length (filter (\<lambda>l. var l = v) (concat (map literals (clauses f))))"

text \<open>What the C library promises of \<open>qsort_r\<close> on one call: the result is a
  rearrangement of the array in which no element compares greater than a later one.
  The order of elements that compare equal is not specified.\<close>

definition sorts :: "((nat \<Rightarrow> nat \<Rightarrow> int) \<Rightarrow> nat list \<Rightarrow> nat list) \<Rightarrow> (nat \<Rightarrow> nat \<Rightarrow> int) \<Rightarrow> nat list \<Rightarrow> bool" where
  "sorts qs cmp xs = (mset (qs cmp xs) = mset xs \<and> sorted_wrt (\<lambda>a b. cmp a b \<le> 0) (qs cmp xs))"

text \<open>Descending count, ties by ascending index.\<close>

definition count_then_id :: "Formula \<Rightarrow> nat \<Rightarrow> nat \<Rightarrow> bool" where
  "count_then_id f a b =
     (occurrences f b < occurrences f a \<or> (occurrences f b = occurrences f a \<and> a < b))"

text \<open>
  The logged operations of the search, each the mutation together with the push of its
  undo entry, as the code pairs them: an assignment followed by \<open>push_assignment\<close>,
  the setting of a flag followed by \<open>push_clause_satisfy\<close>, \<open>watchtable_add\<close> and
  \<open>watchtable_remove\<close>.
\<close>

datatype SearchOp = Assign nat int | Satisfy nat | WatchAdd nat nat | WatchRemove nat nat

fun apply_op :: "SearchOp \<Rightarrow> State \<Rightarrow> State" where
  "apply_op (Assign v x) st = push_assignment v (set_assignment v x st)"
| "apply_op (Satisfy i) st = push_clause_satisfy i (set_satisfied i True st)"
| "apply_op (WatchAdd index val) st = watchtable_add index val st"
| "apply_op (WatchRemove index val) st = watchtable_remove index val st"

text \<open>The entry an operation pushes.\<close>

fun entry_of :: "SearchOp \<Rightarrow> UndoEntry" where
  "entry_of (Assign v x) = ASSIGNMENT v"
| "entry_of (Satisfy i) = CLAUSE_SATISFY i"
| "entry_of (WatchAdd index val) = WATCHLIST_ADD index val"
| "entry_of (WatchRemove index val) = WATCHLIST_REMOVE index val"

text \<open>An operation changes what its entry will restore: the assignment is of an
  unassigned variable, the flag set was not set, the index removed is in the list.\<close>

fun flips :: "SearchOp \<Rightarrow> State \<Rightarrow> bool" where
  "flips (Assign v x) st = (assignments st ! v = - 1)"
| "flips (Satisfy i) st = (\<not> satisfied (clause_at st i))"
| "flips (WatchAdd index val) st = True"
| "flips (WatchRemove index val) st = (val \<in> set (watch_lists st ! index))"

fun all_flips :: "SearchOp list \<Rightarrow> State \<Rightarrow> bool" where
  "all_flips [] st = True"
| "all_flips (op # ops) st = (flips op st \<and> all_flips ops (apply_op op st))"

text \<open>Two states agree on the formula (flags included), on the assignments, and on
  every watch list as a multiset.\<close>

definition same_content :: "State \<Rightarrow> State \<Rightarrow> bool" where
  "same_content t s =
     (formula t = formula s \<and> assignments t = assignments s \<and>
      map mset (watch_lists t) = map mset (watch_lists s))"


text \<open>The relocation of clause 0 of \<open>1 \<or> 2 \<or> 3\<close>, \<open>1 \<or> \<not>2\<close> from the list of
  literal 1 to the list of literal 3, as the propagator does it.\<close>

definition relocate_example :: "SearchOp list" where
  "relocate_example = [WatchRemove 1 0, WatchAdd 3 0]"

text \<open>The state of a call of \<open>dpll\<close> after its sweep, with the flag
  \<open>all_satisfied\<close>: the poll, the propagator (without conflict), the pure-literal pass
  and the sweep, as \<open>dpll\<close> runs them.\<close>

definition post_sweep :: "State \<Rightarrow> (bool \<times> State) option" where
  "post_sweep st0 =
     do {
       (ok1, st1) \<leftarrow> unit_propagate_2watchlit (st0\<lparr>polls := polls st0 + 1\<rparr>);
       if ok1 then Some (sweep (snd (pure_literal_elimination st1))) else None
     }"



text \<open>A state \<open>t\<close> is a rewound image of \<open>s\<close>: the same literal vectors and
  assignments, every watch list the same as a multiset, and no flag set that is not set
  in \<open>s\<close>. The stack and the poll counter are left open.\<close>

definition rewound :: "State \<Rightarrow> State \<Rightarrow> bool" where
  "rewound s t =
     (numVars (formula t) = numVars (formula s) \<and>
      map literals (clauses (formula t)) = map literals (clauses (formula s)) \<and>
      (\<forall>i < length (clauses (formula s)).
         satisfied (clauses (formula t) ! i) \<longrightarrow> satisfied (clauses (formula s) ! i)) \<and>
      assignments t = assignments s \<and>
      map mset (watch_lists t) = map mset (watch_lists s))"

text \<open>An operation whose undo entry is faithful for the assignments and the watch lists:
  an assignment of an unassigned variable, a removal of an index that is in the list. A
  flag may be set and logged although it is set already (the pure-literal pass does so).\<close>

fun logged :: "SearchOp \<Rightarrow> State \<Rightarrow> bool" where
  "logged (Satisfy i) st = True"
| "logged (Assign v x) st = (assignments st ! v = - 1)"
| "logged (WatchAdd index val) st = True"
| "logged (WatchRemove index val) st = (val \<in> set (watch_lists st ! index))"

text \<open>The states the search can be in while the stack stays above the one of \<open>b\<close>:
  logged operations, and jumps to a rewound image with the same stack (what a rewind to
  an inner checkpoint, or a poll of the clock, amounts to).\<close>

inductive reach :: "State \<Rightarrow> State \<Rightarrow> bool" for b :: State where
  reach_refl: "reach b b"
| reach_op: "reach b s \<Longrightarrow> logged op s \<Longrightarrow> reach b (apply_op op s)"
| reach_jump: "reach b s \<Longrightarrow> rewound s t \<Longrightarrow> stack t = stack s \<Longrightarrow> reach b t"

text \<open>A literal on one of the variables 1 to \<open>n\<close>.\<close>

definition wf_lit :: "nat \<Rightarrow> Literal \<Rightarrow> bool" where
  "wf_lit n l = (1 \<le> var l \<and> var l \<le> n)"

text \<open>Every literal of the formula is on a variable within range.\<close>

definition wf_formula :: "Formula \<Rightarrow> bool" where
  "wf_formula f = list_all (\<lambda>c. list_all (wf_lit (numVars f)) (literals c)) (clauses f)"

text \<open>The arrays have the sizes \<open>main\<close> allocates.\<close>

definition wf_state :: "State \<Rightarrow> bool" where
  "wf_state st =
     (wf_formula (formula st) \<and> length (assignments st) = numVars (formula st) + 1 \<and>
      length (watch_lists st) = numVars (formula st) * 2 + 1)"

text \<open>Every entry of a watch list is a clause index, and the list is keyed by one of
  that clause's literals.\<close>

definition watch_ok :: "State \<Rightarrow> bool" where
  "watch_ok st =
     (\<forall>k < length (watch_lists st). \<forall>c \<in> set (watch_lists st ! k).
        c < length (clauses (formula st)) \<and>
        (\<exists>l \<in> set (literals (clause_at st c)). watchlist_index l (numVars (formula st)) = k))"

text \<open>A flagged clause holds a literal that is true under the assignments.\<close>

definition flags_ok :: "State \<Rightarrow> bool" where
  "flags_ok st =
     (\<forall>i < length (clauses (formula st)).
        satisfied (clause_at st i) \<longrightarrow> list_ex (lit_true (assignments st)) (literals (clause_at st i)))"

text \<open>Every variable holds \<open>-1\<close>, \<open>0\<close> or \<open>1\<close>.\<close>

definition vals_ok :: "State \<Rightarrow> bool" where
  "vals_ok st =
     (\<forall>v. 1 \<le> v \<and> v \<le> numVars (formula st) \<longrightarrow>
        assignments st ! v = - 1 \<or> assignments st ! v = 0 \<or> assignments st ! v = 1)"

text \<open>The invariant of the search.\<close>

definition inv :: "State \<Rightarrow> bool" where
  "inv st = (wf_state st \<and> watch_ok st \<and> flags_ok st \<and> vals_ok st)"

text \<open>What the primitive updates leave alone.\<close>

named_theorems frame

text \<open>The literals in the propagator's queue are within range.\<close>

definition wf_queue :: "State \<Rightarrow> Literal list \<Rightarrow> bool" where
  "wf_queue s q = list_all (wf_lit (numVars (formula s))) q"

text \<open>The polarity of a literal was recorded by the first loop of the pure-literal pass.\<close>

definition seen :: "bool list \<times> bool list \<Rightarrow> Literal \<Rightarrow> bool" where
  "seen pn l = (if neg l then snd pn ! var l else fst pn ! var l)"

text \<open>The recorded polarities only grow.\<close>

definition grows :: "bool list \<times> bool list \<Rightarrow> bool list \<times> bool list \<Rightarrow> bool" where
  "grows pn pn' =
     (length (fst pn') = length (fst pn) \<and> length (snd pn') = length (snd pn) \<and>
      (\<forall>v < length (fst pn). fst pn ! v \<longrightarrow> fst pn' ! v) \<and>
      (\<forall>v < length (snd pn). snd pn ! v \<longrightarrow> snd pn' ! v))"

text \<open>The state of the second loop of the pure-literal pass, started in \<open>b\<close> with the
  recorded polarities \<open>pn\<close>: assigned variables keep their value, and a variable
  marked pure was unassigned, was seen with one polarity, and has the value that makes
  that polarity true.\<close>

definition pure_inv :: "State \<Rightarrow> bool list \<times> bool list \<Rightarrow> State \<times> bool list \<Rightarrow> bool" where
  "pure_inv b pn sp =
     (reach b (fst sp) \<and> inv (fst sp) \<and>
      (\<forall>w. assignments b ! w \<noteq> - 1 \<longrightarrow> assignments (fst sp) ! w = assignments b ! w) \<and>
      (\<forall>w. w \<le> numVars (formula b) \<longrightarrow> snd sp ! w \<longrightarrow>
         assignments b ! w = - 1 \<and>
         ((fst pn ! w \<and> \<not> snd pn ! w \<and> assignments (fst sp) ! w = 1) \<or>
          (\<not> fst pn ! w \<and> snd pn ! w \<and> assignments (fst sp) ! w = 0))) \<and>
      length (snd sp) = numVars (formula b) + 1)"

text \<open>Every clause is flagged.\<close>

definition all_flagged :: "State \<Rightarrow> bool" where
  "all_flagged s = (\<forall>i < length (clauses (formula s)). satisfied (clause_at s i))"

text \<open>What the parser delivers for a well-formed DIMACS file: no flag is set, and every
  literal is on one of the variables 1 to \<open>numVars\<close>.\<close>

definition parsed :: "Formula \<Rightarrow> bool" where
  "parsed f =
     list_all (\<lambda>c. \<not> satisfied c \<and> list_all (wf_lit (numVars f)) (literals c)) (clauses f)"

text \<open>Clause \<open>c\<close> is registered exactly once in the watch list of each literal of \<open>ls\<close> and not at all in any other watch list.\<close>

definition registered :: "State \<Rightarrow> nat \<Rightarrow> Literal list \<Rightarrow> bool" where
  "registered st c ls =
     (\<forall>k < length (watch_lists st).
        count_list (watch_lists st ! k) c =
          (if k \<in> (\<lambda>l. watchlist_index l (numVars (formula st))) ` set ls then 1 else 0))"

text \<open>The watched-literal invariant: every clause is registered under \<open>min 2 size\<close> literals of its own vector with pairwise distinct keys, once in each of their lists and nowhere else.\<close>

definition two_watched :: "State \<Rightarrow> bool" where
  "two_watched st =
     (\<forall>c < length (clauses (formula st)).
        \<exists>ls. set ls \<subseteq> set (literals (clause_at st c)) \<and>
             distinct (map (\<lambda>l. watchlist_index l (numVars (formula st))) ls) \<and>
             length ls = min 2 (length (literals (clause_at st c))) \<and>
             registered st c ls)"

text \<open>No clause of the formula begins with the same literal twice (\<open>main\<close> registers a clause under \<open>literals[0]\<close> and \<open>literals[1]\<close>).\<close>

definition distinct_heads :: "Formula \<Rightarrow> bool" where
  "distinct_heads f =
     list_all (\<lambda>c. case literals c of
                     l0 # l1 # ls \<Rightarrow> \<not> (var l0 = var l1 \<and> neg l0 = neg l1)
                   | _ \<Rightarrow> True) (clauses f)"

text \<open>Two states with the same formula size, the same literal vectors and the same watch lists up to order.\<close>

definition same_watch :: "State \<Rightarrow> State \<Rightarrow> bool" where
  "same_watch s t =
     (numVars (formula t) = numVars (formula s) \<and>
      map literals (clauses (formula t)) = map literals (clauses (formula s)) \<and>
      map mset (watch_lists t) = map mset (watch_lists s))"

text \<open>\<open>calls tmo var_sort depth st0 s\<close>: the call \<open>dpll tmo var_sort depth st0\<close>, or one of the recursive calls below it, reaches its propagator invocation in state \<open>s\<close> (after the timeout poll). The second branch is entered only when the first one returned \<open>UNSAT\<close> and the rewind succeeded.\<close>

inductive calls :: "(nat \<Rightarrow> bool) \<Rightarrow> nat list \<Rightarrow> nat \<Rightarrow> State \<Rightarrow> State \<Rightarrow> bool"
  for tmo :: "nat \<Rightarrow> bool" and var_sort :: "nat list" where
  call_here:
    "\<not> tmo (polls st0) \<Longrightarrow> calls tmo var_sort depth st0 (st0\<lparr>polls := polls st0 + 1\<rparr>)"
| call_first:
    "\<not> tmo (polls st0) \<Longrightarrow> post_sweep st0 = Some (False, st3) \<Longrightarrow>
     pick_unassigned_variable var_sort st3 = Some x \<Longrightarrow>
     calls tmo var_sort (depth + 1) (decide x 0 st3) s \<Longrightarrow>
     calls tmo var_sort depth st0 s"
| call_second:
    "\<not> tmo (polls st0) \<Longrightarrow> post_sweep st0 = Some (False, st3) \<Longrightarrow>
     pick_unassigned_variable var_sort st3 = Some x \<Longrightarrow>
     dpll tmo var_sort (depth + 1) (decide x 0 st3) = Some (UNSAT, st4) \<Longrightarrow>
     undo_to_checkpoint (length (stack st3)) st4 = Some st5 \<Longrightarrow>
     calls tmo var_sort (depth + 1) (decide x 1 st5) s \<Longrightarrow>
     calls tmo var_sort depth st0 s"

text \<open>The keys of the watch lists in which clause \<open>c\<close> occurs.\<close>

definition watchers :: "State \<Rightarrow> nat \<Rightarrow> nat list" where
  "watchers st c = filter (\<lambda>k. c \<in> set (watch_lists st ! k)) [0..<length (watch_lists st)]"

text \<open>The number of variables from 1 to \<open>numVars\<close> that are unassigned.\<close>

definition unassigned :: "State \<Rightarrow> nat" where
  "unassigned st =
     length (filter (\<lambda>v. assignments st ! v = - 1) [1..<numVars (formula st) + 1])"

text \<open>The number of literals in the propagator's queue that are not false under the assignments.\<close>

definition pending :: "int list \<Rightarrow> Literal list \<Rightarrow> nat" where
  "pending a q = length (filter (\<lambda>l. \<not> lit_false a l) q)"

text \<open>The search for the other watched literal of clause \<open>c\<close>, seen from the literal \<open>x\<close>, finds none.\<close>

definition sole :: "State \<Rightarrow> Literal \<Rightarrow> nat \<Rightarrow> bool" where
  "sole st x c =
     (var (find_other (watch_lists st) (numVars (formula st)) x c (literals (clause_at st c))) = 0)"

text \<open>Inside the propagator: an unflagged clause registered under a literal \<open>x\<close>, with no other watched literal, is not registered under a true literal.\<close>

definition lone_ok :: "State \<Rightarrow> bool" where
  "lone_ok st =
     (\<forall>x c. wf_lit (numVars (formula st)) x \<longrightarrow> c < length (clauses (formula st)) \<longrightarrow>
        c \<in> set (watch_lists st ! watchlist_index x (numVars (formula st))) \<longrightarrow>
        \<not> satisfied (clause_at st c) \<longrightarrow> sole st x c \<longrightarrow> \<not> lit_true (assignments st) x)"

text \<open>Every clause with a literal that is true under the assignments is flagged. It holds in the initial state and after every decision, which is where \<open>dpll\<close> is called.\<close>

definition true_flagged :: "State \<Rightarrow> bool" where
  "true_flagged st =
     (\<forall>i < length (clauses (formula st)).
        list_ex (lit_true (assignments st)) (literals (clause_at st i)) \<longrightarrow> satisfied (clause_at st i))"


text \<open>\<open>entered tmo var_sort depth st0 d s\<close>: in the call \<open>dpll tmo var_sort depth st0\<close>, that call itself or one of the recursive calls below it is entered at depth \<open>d\<close> in state \<open>s\<close>. The second branch is entered only when the first one returned \<open>UNSAT\<close> and the rewind succeeded.\<close>

inductive entered :: "(nat \<Rightarrow> bool) \<Rightarrow> nat list \<Rightarrow> nat \<Rightarrow> State \<Rightarrow> nat \<Rightarrow> State \<Rightarrow> bool"
  for tmo :: "nat \<Rightarrow> bool" and var_sort :: "nat list" where
  enter_here: "entered tmo var_sort depth st0 depth st0"
| enter_first:
    "\<not> tmo (polls st0) \<Longrightarrow> post_sweep st0 = Some (False, st3) \<Longrightarrow>
     pick_unassigned_variable var_sort st3 = Some x \<Longrightarrow>
     entered tmo var_sort (depth + 1) (decide x 0 st3) d s \<Longrightarrow>
     entered tmo var_sort depth st0 d s"
| enter_second:
    "\<not> tmo (polls st0) \<Longrightarrow> post_sweep st0 = Some (False, st3) \<Longrightarrow>
     pick_unassigned_variable var_sort st3 = Some x \<Longrightarrow>
     dpll tmo var_sort (depth + 1) (decide x 0 st3) = Some (UNSAT, st4) \<Longrightarrow>
     undo_to_checkpoint (length (stack st3)) st4 = Some st5 \<Longrightarrow>
     entered tmo var_sort (depth + 1) (decide x 1 st5) d s \<Longrightarrow>
     entered tmo var_sort depth st0 d s"

text \<open>The truth assignment that makes every variable true.\<close>

definition all_true :: "nat \<Rightarrow> bool" where
  "all_true v = True"

section \<open>Seeding of the propagator\<close>

lemma seed_scan_eq:
  "seed_scan a ls (cnt, cp) =
     (cnt + length (filter (\<lambda>l. a ! var l = - 1) ls),
      if cnt = 0 then (case filter (\<lambda>l. a ! var l = - 1) ls of [] \<Rightarrow> cp | l # x \<Rightarrow> Some l)
      else cp)"
  by (induction ls arbitrary: cnt cp) (auto split: list.splits)

lemma seed_clause_eq: "seed_clause a c = seeds_by_flag a c"
proof (cases "filter (\<lambda>l. a ! var l = - 1) (literals c)")
  case Nil
  then show ?thesis
    by (simp add: seed_clause_def seeds_by_flag_def unassigned_literals_def seed_scan_eq)
next
  case (Cons l ls)
  then show ?thesis
    by (cases ls) (simp_all add: seed_clause_def seeds_by_flag_def unassigned_literals_def seed_scan_eq)
qed

lemma seed_loop_eq: "seed_loop a cs queue = queue @ concat (map (seed_clause a) cs)"
  by (induction cs arbitrary: queue) simp_all


section \<open>A SAT verdict with an unassigned variable\<close>

text \<open>
  C10. On the input \<open>p cnf 2 2\<close>, \<open>1 0\<close>, \<open>1 2 0\<close> the solver answers SAT while
  variable 2 is still unassigned: the entry of the assignment array is \<open>-1\<close>, and every
  clause of the formula the search ran on is flagged.
\<close>

theorem C10_sat_with_unassigned_variable:
  "map_option (\<lambda>(r, st). (r, assignments st, map satisfied (clauses (formula st))))
     (solve stable_qsort a0 never (cnf 2 [[1], [1, 2]])) = Some (SAT, [a0, 1, - 1], [True])"
  by code_simp

section \<open>The third loop of the pure-literal pass\<close>

text \<open>
  C5 fails on the code. On the input \<open>p cnf 4 2\<close>, \<open>-4 -1 -3 0\<close>, \<open>3 1 4 0\<close> the
  driver decides \<open>1 := 0\<close>, which flags clause 0. In the call that follows, the
  pure-literal pass finds 3 and 4 pure and its third loop pushes a second
  \<open>CLAUSE_SATISFY 0\<close> for the clause that is flagged already.
\<close>

theorem C5_flagged_clause_logged_again:
  "satisfied (clause_at (decide 1 0 (initial_state a0 (cnf 4 [[-4, -1, -3], [3, 1, 4]]))) 0) \<and>
   stack (decide 1 0 (initial_state a0 (cnf 4 [[-4, -1, -3], [3, 1, 4]])))
     = [CLAUSE_SATISFY 0, ASSIGNMENT 1] \<and>
   stack (snd (pure_literal_elimination
       (decide 1 0 (initial_state a0 (cnf 4 [[-4, -1, -3], [3, 1, 4]])))))
     = [CLAUSE_SATISFY 1, CLAUSE_SATISFY 0, ASSIGNMENT 4, ASSIGNMENT 3,
        CLAUSE_SATISFY 0, ASSIGNMENT 1]"
  by code_simp

section \<open>Subsumption preserves satisfiability\<close>

lemma clause_subset_trans:
  "clause_subset a b \<Longrightarrow> clause_subset b c \<Longrightarrow> clause_subset a c"
  by (auto simp: clause_subset_def list_all_iff)

lemma lit_key_inj: "0 < var l \<Longrightarrow> 0 < var l' \<Longrightarrow> lit_key l = lit_key l' \<Longrightarrow> var l = var l' \<and> neg l = neg l'"
  by (auto simp: lit_key_def split: if_splits)

lemma clause_subset_holds:
  assumes "clause_subset a b" "clause_holds A a"
    and "list_all (\<lambda>l. 0 < var l) (literals a)" "list_all (\<lambda>l. 0 < var l) (literals b)"
  shows "clause_holds A b"
proof -
  from assms(2) obtain l where l: "l \<in> set (literals a)" "lit_holds A l"
    by (auto simp: clause_holds_def list_ex_iff)
  with assms(1) obtain l' where l': "l' \<in> set (literals b)" "lit_key l' = lit_key l"
    by (auto simp: clause_subset_def list_all_iff)
  from l l' assms(3,4) have "var l' = var l \<and> neg l' = neg l"
    using lit_key_inj [of l' l] by (auto simp: list_all_iff)
  with l(2) have "lit_holds A l'" by (simp add: lit_holds_def)
  with l'(1) show ?thesis by (auto simp: clause_holds_def list_ex_iff)
qed

lemma mark_step_ok:
  assumes "marks_ok cs m" "k < length cs"
  shows "marks_ok cs (mark_step cs k m)"
proof (cases "\<not> m ! k \<and> subsumed_by_other cs m k")
  case False
  then show ?thesis using assms by (auto simp: mark_step_def)
next
  case True
  then obtain j where j: "j < length cs" "j \<noteq> k" "\<not> m ! j" "clause_subset (cs ! j) (cs ! k)"
    by (auto simp: subsumed_by_other_def list_ex_iff)
  have len: "length m = length cs" using assms by (simp add: marks_ok_def)
  have step: "mark_step cs k m = m[k := True]" using True by (simp add: mark_step_def)
  have "\<exists>j' < length cs. \<not> m[k := True] ! j' \<and> clause_subset (cs ! j') (cs ! i)"
    if i: "i < length cs" "m[k := True] ! i" for i
  proof (cases "i = k")
    case True
    with j len show ?thesis by (auto simp: nth_list_update)
  next
    case False
    with i len have "m ! i" by (simp add: nth_list_update)
    with assms(1) i obtain j0 where j0: "j0 < length cs" "\<not> m ! j0" "clause_subset (cs ! j0) (cs ! i)"
      by (auto simp: marks_ok_def)
    show ?thesis
    proof (cases "j0 = k")
      case True
      with j0 j have "clause_subset (cs ! j) (cs ! i)"
        by (auto intro: clause_subset_trans)
      with j len show ?thesis by (auto simp: nth_list_update)
    next
      case False
      with j0 len show ?thesis by (auto simp: nth_list_update)
    qed
  qed
  with len step show ?thesis by (simp add: marks_ok_def)
qed

lemma fold_mark_step_ok:
  "marks_ok cs m \<Longrightarrow> set ks \<subseteq> {..<length cs} \<Longrightarrow> marks_ok cs (fold (mark_step cs) ks m)"
  by (induction ks arbitrary: m) (auto intro: mark_step_ok)

lemma remove_marks_ok: "marks_ok cs (remove_marks cs)"
  unfolding remove_marks_def
  by (rule fold_mark_step_ok) (auto simp: marks_ok_def)

lemma clauses_remove_supersets:
  "set (clauses (remove_supersets f)) =
     {clauses f ! i | i. i < length (clauses f) \<and> \<not> remove_marks (clauses f) ! i}"
  by (auto simp: remove_supersets_def Let_def)

text \<open>
  C9. The formula that \<open>remove_supersets\<close> leaves is satisfiable exactly when the
  parsed formula is, for every formula whose literals have a non-zero variable, as
  the parser produces them (two literals with the same key are then the same literal).
\<close>

theorem C9_subsumption_equisatisfiable:
  assumes "positive_vars f"
  shows "satisfiable (remove_supersets f) = satisfiable f"
proof
  assume "satisfiable f"
  then obtain A where A: "\<forall>c \<in> set (clauses f). clause_holds A c"
    by (auto simp: satisfiable_def list_all_iff)
  have "\<forall>c \<in> set (clauses (remove_supersets f)). clause_holds A c"
    using A by (auto simp: clauses_remove_supersets)
  then show "satisfiable (remove_supersets f)"
    by (auto simp: satisfiable_def list_all_iff)
next
  assume "satisfiable (remove_supersets f)"
  then obtain A where A: "\<forall>c \<in> set (clauses (remove_supersets f)). clause_holds A c"
    by (auto simp: satisfiable_def list_all_iff)
  let ?cs = "clauses f" and ?m = "remove_marks (clauses f)"
  have ok: "marks_ok ?cs ?m" by (rule remove_marks_ok)
  have pos: "list_all (\<lambda>l. 0 < var l) (literals (?cs ! i))" if "i < length ?cs" for i
    using assms that by (auto simp: positive_vars_def list_all_iff)
  have kept: "clause_holds A (?cs ! j)" if "j < length ?cs" "\<not> ?m ! j" for j
    using A that by (auto simp: clauses_remove_supersets)
  have "clause_holds A (?cs ! i)" if i: "i < length ?cs" for i
  proof (cases "?m ! i")
    case False
    with i show ?thesis by (rule kept)
  next
    case True
    with ok i obtain j where j: "j < length ?cs" "\<not> ?m ! j" "clause_subset (?cs ! j) (?cs ! i)"
      by (auto simp: marks_ok_def)
    from clause_subset_holds [OF j(3) kept [OF j(1,2)] pos [OF j(1)] pos [OF i]]
    show ?thesis .
  qed
  then have "\<forall>c \<in> set ?cs. clause_holds A c"
    by (auto simp: in_set_conv_nth)
  then show "satisfiable f"
    by (auto simp: satisfiable_def list_all_iff)
qed

text \<open>The theorem at \<open>1\<close>, \<open>1 \<or> 2\<close>, \<open>\<not>1 \<or> 2\<close>: the second clause is removed.\<close>

theorem C9_witness:
  "positive_vars (cnf 2 [[1], [1, 2], [-1, 2]]) \<and>
   clauses (remove_supersets (cnf 2 [[1], [1, 2], [-1, 2]])) = [cls [1], cls [-1, 2]] \<and>
   satisfiable (remove_supersets (cnf 2 [[1], [1, 2], [-1, 2]])) = satisfiable (cnf 2 [[1], [1, 2], [-1, 2]])"
proof -
  have p: "positive_vars (cnf 2 [[1], [1, 2], [-1, 2]])"
    by (simp add: positive_vars_def cnf_def cls_def dimacs_lit_def)
  have c: "clauses (remove_supersets (cnf 2 [[1], [1, 2], [-1, 2]])) = [cls [1], cls [-1, 2]]"
    by code_simp
  from p c C9_subsumption_equisatisfiable [OF p] show ?thesis by simp
qed

section \<open>The order of the heuristic\<close>

lemma count_literals_length:
  "length (fold (\<lambda>lit cnt. cnt[var lit := cnt ! var lit + 1]) ls cnt) = length cnt"
  by (induction ls arbitrary: cnt) simp_all

lemma count_literals_nth:
  "v < length cnt \<Longrightarrow>
   fold (\<lambda>lit cnt. cnt[var lit := cnt ! var lit + 1]) ls cnt ! v
     = cnt ! v + int (length (filter (\<lambda>l. var l = v) ls))"
proof (induction ls arbitrary: cnt)
  case Nil
  then show ?case by simp
next
  case (Cons l ls)
  then show ?case by (simp add: nth_list_update)
qed

lemma count_clauses_nth:
  "v < length cnt \<Longrightarrow>
   length (fold (\<lambda>c cnt. fold (\<lambda>lit cnt. cnt[var lit := cnt ! var lit + 1]) (literals c) cnt) cs cnt)
     = length cnt \<and>
   fold (\<lambda>c cnt. fold (\<lambda>lit cnt. cnt[var lit := cnt ! var lit + 1]) (literals c) cnt) cs cnt ! v
     = cnt ! v + int (length (filter (\<lambda>l. var l = v) (concat (map literals cs))))"
proof (induction cs arbitrary: cnt)
  case Nil
  then show ?case by simp
next
  case (Cons c cs)
  then show ?case by (simp add: count_literals_length count_literals_nth)
qed

lemma count_occurrences_nth:
  "v \<le> numVars f \<Longrightarrow> count_occurrences f ! v = int (occurrences f v)"
proof -
  assume "v \<le> numVars f"
  then have v: "v < length (replicate (numVars f + 1) (0::int))" by simp
  have z: "replicate (numVars f + 1) (0::int) ! v = 0"
    using \<open>v \<le> numVars f\<close> by (intro nth_replicate) simp
  from count_clauses_nth [OF v, of "clauses f"] z show ?thesis
    by (simp only: count_occurrences_def occurrences_def)
qed

lemma set_insert_cmp: "set (insert_cmp cmp x ys) = insert x (set ys)"
  by (induction ys) auto

lemma mset_insert_cmp: "mset (insert_cmp cmp x ys) = add_mset x (mset ys)"
  by (induction ys) auto

lemma mset_stable_qsort: "mset (stable_qsort cmp xs) = mset xs"
  by (induction xs) (simp_all add: stable_qsort_def mset_insert_cmp)

lemma sorted_insert_cmp:
  assumes "sorted_wrt (\<lambda>a b. k b < k a \<or> (k b = k a \<and> a < b)) ys"
    and "\<forall>y \<in> set ys. x < y"
  shows "sorted_wrt (\<lambda>a b. k b < k a \<or> (k b = k a \<and> a < b))
           (insert_cmp (\<lambda>a b. k b - k a) x ys)"
  using assms
proof (induction ys)
  case Nil
  then show ?case by simp
next
  case (Cons y ys)
  show ?case
  proof (cases "k y \<le> k x")
    case True
    have "k z < k x \<or> (k z = k x \<and> x < z)" if "z \<in> set (y # ys)" for z
    proof -
      have "k z \<le> k y" using Cons.prems(1) that by auto
      moreover have "x < z" using Cons.prems(2) that by auto
      ultimately show ?thesis using True by auto
    qed
    with True Cons.prems(1) show ?thesis by auto
  next
    case False
    with Cons show ?thesis by (auto simp: set_insert_cmp)
  qed
qed

lemma sorted_stable_qsort:
  fixes k :: "nat \<Rightarrow> int"
  assumes "sorted_wrt (<) xs"
  shows "sorted_wrt (\<lambda>a b. k b < k a \<or> (k b = k a \<and> a < b)) (stable_qsort (\<lambda>a b. k b - k a) xs)"
  using assms
proof (induction xs)
  case Nil
  then show ?case by (simp add: stable_qsort_def)
next
  case (Cons x xs)
  have "set (stable_qsort (\<lambda>a b. k b - k a) xs) = set xs"
    using mset_stable_qsort [of "\<lambda>a b. k b - k a" xs] by (metis set_mset_mset)
  with Cons sorted_insert_cmp [of k "stable_qsort (\<lambda>a b. k b - k a) xs" x]
  show ?case by (simp add: stable_qsort_def)
qed

lemma compare_desc_fun: "compare_desc cnt = (\<lambda>a b. cnt ! b - cnt ! a)"
  by (rule ext, rule ext) (simp add: compare_desc_def)

lemma set_upt_mset: "mset xs = mset [0..<n + 1] \<Longrightarrow> x \<in> set xs \<Longrightarrow> x \<le> n"
  by (metis atLeastLessThan_iff set_mset_mset set_upt less_Suc_eq_le Suc_eq_plus1)

lemma parsed_occurrences_0: "parsed f \<Longrightarrow> occurrences f 0 = 0"
  by (fastforce simp: parsed_def occurrences_def list_all_iff wf_lit_def filter_empty_conv)

text \<open>When every variable occurs and index 0 does not, a descending order of the indices
  \<open>0, \<dots>, n\<close> ends with 0, so that its first \<open>n\<close> entries are the variables.\<close>

lemma zero_last:
  fixes occ :: "nat \<Rightarrow> nat"
  assumes "mset xs = mset [0..<n + 1]" and "sorted_wrt (\<lambda>a b. occ b \<le> occ a) xs"
    and "occ 0 = 0" and "\<forall>v \<in> {1..n}. 0 < occ v"
  shows "mset (take n xs) = mset [1..<n + 1]"
proof -
  have len: "length xs = n + 1" using assms(1) by (metis length_upt mset_eq_length diff_zero)
  have set: "set xs = {0..<n + 1}" using assms(1) by (metis set_mset_mset set_upt)
  have dist: "distinct xs" using assms(1) by (metis distinct_upt mset_eq_imp_distinct_iff)
  from set obtain p where p: "p < length xs" "xs ! p = 0"
    by (metis atLeastLessThan_iff in_set_conv_nth zero_le zero_less_Suc Suc_eq_plus1)
  have "p = n"
  proof (rule ccontr)
    assume "p \<noteq> n"
    with p(1) len have q: "p + 1 < length xs" by simp
    from sorted_wrt_nth_less [OF assms(2) _ q, of p] p(2) assms(3)
    have z: "occ (xs ! (p + 1)) = 0" by simp
    have "xs ! (p + 1) \<noteq> xs ! p"
      using dist q p(1) by (simp add: nth_eq_iff_index_eq)
    moreover have "xs ! (p + 1) \<in> {0..<n + 1}" using set q nth_mem by blast
    ultimately have "xs ! (p + 1) \<in> {1..n}" using p(2) by auto
    with assms(4) have "0 < occ (xs ! (p + 1))" by blast
    with z show False by simp
  qed
  with p len have "xs = take n xs @ [0]"
    by (metis Suc_eq_plus1 lessI take_Suc_conv_app_nth take_all order_refl)
  then have "mset xs = add_mset 0 (mset (take n xs))"
    by (metis mset.simps(2) mset_append union_mset_add_mset_right add.right_neutral mset.simps(1))
  moreover have "mset [0..<n + 1] = add_mset 0 (mset [1..<n + 1])"
    by (simp add: upt_rec [of 0])
  ultimately show ?thesis using assms(1) by simp
qed

text \<open>
  C8, as the code has it. The array handed to the sort holds the indices
  \<open>0, \<dots>, numVars\<close>, the unused index 0 included. Whenever the library's sort does its
  duty on this call, the order is a permutation of \<open>0, \<dots>, numVars\<close> in descending
  number of occurrences; with a stable sort, entries of equal count come in ascending
  index. For a parsed formula the count of index 0 is 0, so index 0 stands among the
  variables that do not occur. \<open>pick_unassigned_variable\<close> reads the first \<open>numVars\<close>
  entries: when every variable occurs in the formula they are a permutation of the
  variables \<open>1, \<dots>, numVars\<close>, in descending count and, with a stable sort, ascending
  index among equal counts.
\<close>

theorem C8_variable_order:
  "(sorts qs (compare_desc (count_occurrences f)) [0..<numVars f + 1] \<longrightarrow>
      mset (var_order qs f) = mset [0..<numVars f + 1] \<and>
      sorted_wrt (\<lambda>a b. occurrences f b \<le> occurrences f a) (var_order qs f) \<and>
      (parsed f \<longrightarrow> (\<forall>v \<in> {1..numVars f}. 0 < occurrences f v) \<longrightarrow>
         mset (take (numVars f) (var_order qs f)) = mset [1..<numVars f + 1])) \<and>
   mset (var_order stable_qsort f) = mset [0..<numVars f + 1] \<and>
   sorted_wrt (count_then_id f) (var_order stable_qsort f) \<and>
   (parsed f \<longrightarrow>
      occurrences f 0 = 0 \<and>
      ((\<forall>v \<in> {1..numVars f}. 0 < occurrences f v) \<longrightarrow>
         mset (take (numVars f) (var_order stable_qsort f)) = mset [1..<numVars f + 1] \<and>
         sorted_wrt (count_then_id f) (take (numVars f) (var_order stable_qsort f))))"
proof -
  have gen: "mset (var_order qs f) = mset [0..<numVars f + 1] \<and>
      sorted_wrt (\<lambda>a b. occurrences f b \<le> occurrences f a) (var_order qs f)"
    if s: "sorts qs (compare_desc (count_occurrences f)) [0..<numVars f + 1]" for qs
  proof
    from s show m: "mset (var_order qs f) = mset [0..<numVars f + 1]"
      by (simp add: sorts_def var_order_def get_sorted_indices_def)
    from s have "sorted_wrt (\<lambda>a b. compare_desc (count_occurrences f) a b \<le> 0) (var_order qs f)"
      by (simp add: sorts_def var_order_def get_sorted_indices_def)
    then show "sorted_wrt (\<lambda>a b. occurrences f b \<le> occurrences f a) (var_order qs f)"
    proof (rule sorted_wrt_mono_rel [rotated])
      fix a b assume "a \<in> set (var_order qs f)" "b \<in> set (var_order qs f)"
        and "compare_desc (count_occurrences f) a b \<le> 0"
      with m show "occurrences f b \<le> occurrences f a"
        using set_upt_mset [OF m] by (simp add: compare_desc_def count_occurrences_nth)
    qed
  qed
  have first: "mset (take (numVars f) (var_order qs f)) = mset [1..<numVars f + 1]"
    if "sorts qs (compare_desc (count_occurrences f)) [0..<numVars f + 1]" "parsed f"
      "\<forall>v \<in> {1..numVars f}. 0 < occurrences f v" for qs
    using gen [OF that(1)] parsed_occurrences_0 [OF that(2)] that(3)
    by (intro zero_last [where occ = "occurrences f"]) simp_all
  have m: "mset (var_order stable_qsort f) = mset [0..<numVars f + 1]"
    by (simp add: var_order_def get_sorted_indices_def mset_stable_qsort)
  have "sorted_wrt (\<lambda>a b. count_occurrences f ! b < count_occurrences f ! a \<or>
          (count_occurrences f ! b = count_occurrences f ! a \<and> a < b)) (var_order stable_qsort f)"
    unfolding var_order_def get_sorted_indices_def compare_desc_fun
    by (rule sorted_stable_qsort) (rule sorted_wrt_upt)
  then have st: "sorted_wrt (count_then_id f) (var_order stable_qsort f)"
  proof (rule sorted_wrt_mono_rel [rotated])
    fix a b assume "a \<in> set (var_order stable_qsort f)" "b \<in> set (var_order stable_qsort f)"
      and "count_occurrences f ! b < count_occurrences f ! a \<or>
          (count_occurrences f ! b = count_occurrences f ! a \<and> a < b)"
    then show "count_then_id f a b"
      using set_upt_mset [OF m] by (simp add: count_then_id_def count_occurrences_nth)
  qed
  have desc: "sorted_wrt (\<lambda>a b. occurrences f b \<le> occurrences f a) (var_order stable_qsort f)"
    using st by (rule sorted_wrt_mono_rel [rotated]) (auto simp: count_then_id_def)
  have stable_first: "mset (take (numVars f) (var_order stable_qsort f)) = mset [1..<numVars f + 1]"
    if "parsed f" "\<forall>v \<in> {1..numVars f}. 0 < occurrences f v"
    using m desc parsed_occurrences_0 [OF that(1)] that(2)
    by (intro zero_last [where occ = "occurrences f"]) simp_all
  have stable_take: "sorted_wrt (count_then_id f) (take (numVars f) (var_order stable_qsort f))"
    using st by (rule sorted_wrt_take)
  from gen first m st stable_first stable_take parsed_occurrences_0 [of f]
  show ?thesis by blast
qed

text \<open>The theorem at \<open>1\<close>, \<open>\<not>1 \<or> 2\<close>, \<open>\<not>2 \<or> 3\<close> with the stable sort: the order is
  \<open>[1, 2, 3, 0]\<close> and the entries read are \<open>[1, 2, 3]\<close>.\<close>

theorem C8_witness:
  "sorts stable_qsort (compare_desc (count_occurrences (cnf 3 [[1], [-1, 2], [-2, 3]])))
     [0..<numVars (cnf 3 [[1], [-1, 2], [-2, 3]]) + 1] \<and>
   parsed (cnf 3 [[1], [-1, 2], [-2, 3]]) \<and>
   list_all (\<lambda>v. 0 < occurrences (cnf 3 [[1], [-1, 2], [-2, 3]]) v) [1, 2, 3] \<and>
   var_order stable_qsort (cnf 3 [[1], [-1, 2], [-2, 3]]) = [1, 2, 3, 0] \<and>
   mset (var_order stable_qsort (cnf 3 [[1], [-1, 2], [-2, 3]]))
     = mset [0..<numVars (cnf 3 [[1], [-1, 2], [-2, 3]]) + 1] \<and>
   sorted_wrt (\<lambda>a b. occurrences (cnf 3 [[1], [-1, 2], [-2, 3]]) b
                     \<le> occurrences (cnf 3 [[1], [-1, 2], [-2, 3]]) a)
     (var_order stable_qsort (cnf 3 [[1], [-1, 2], [-2, 3]])) \<and>
   mset (take (numVars (cnf 3 [[1], [-1, 2], [-2, 3]])) (var_order stable_qsort (cnf 3 [[1], [-1, 2], [-2, 3]])))
     = mset [1..<numVars (cnf 3 [[1], [-1, 2], [-2, 3]]) + 1] \<and>
   occurrences (cnf 3 [[1], [-1, 2], [-2, 3]]) 0 = 0"
proof -
  let ?f = "cnf 3 [[1], [-1, 2], [-2, 3]]"
  have "sorted_wrt (\<lambda>a b. compare_desc (count_occurrences ?f) a b \<le> 0)
     (stable_qsort (compare_desc (count_occurrences ?f)) [0..<numVars ?f + 1])"
    by code_simp
  then have h: "sorts stable_qsort (compare_desc (count_occurrences ?f)) [0..<numVars ?f + 1]"
    by (simp only: sorts_def mset_stable_qsort simp_thms)
  have p: "parsed ?f" by code_simp
  have o: "list_all (\<lambda>v. 0 < occurrences ?f v) [1, 2, 3]" by code_simp
  have n: "{1..numVars ?f} = {1, 2, 3}" by (auto simp: cnf_def)
  from o have a: "\<forall>v \<in> {1..numVars ?f}. 0 < occurrences ?f v"
    unfolding n by simp
  have v: "var_order stable_qsort ?f = [1, 2, 3, 0]" by code_simp
  from C8_variable_order [of stable_qsort ?f] h p a
  have "mset (var_order stable_qsort ?f) = mset [0..<numVars ?f + 1]"
    "sorted_wrt (\<lambda>a b. occurrences ?f b \<le> occurrences ?f a) (var_order stable_qsort ?f)"
    "mset (take (numVars ?f) (var_order stable_qsort ?f)) = mset [1..<numVars ?f + 1]"
    "occurrences ?f 0 = 0"
    by blast+
  with h p o v show ?thesis by (simp only: simp_thms)
qed

text \<open>
  C8 as stated fails. For \<open>p cnf 2 1\<close>, \<open>1 0\<close> the counts of the indices 0, 1, 2 are
  0, 1, 0. Index 0 ties with variable 2, which does not occur, and ascending index puts
  it first: the order is \<open>[1, 0, 2]\<close>, and the two entries that
  \<open>pick_unassigned_variable\<close> reads are \<open>[1, 0]\<close>, not a permutation of the variable ids
  \<open>{1, 2}\<close>.
\<close>

theorem C8_counterexample:
  "parsed (cnf 2 [[1]]) \<and>
   remove_supersets (cnf 2 [[1]]) = cnf 2 [[1]] \<and>
   var_order stable_qsort (cnf 2 [[1]]) = [1, 0, 2] \<and>
   take (numVars (cnf 2 [[1]])) (var_order stable_qsort (cnf 2 [[1]])) = [1, 0] \<and>
   set (take (numVars (cnf 2 [[1]])) (var_order stable_qsort (cnf 2 [[1]]))) \<noteq> {1..2}"
proof -
  have a: "parsed (cnf 2 [[1]])" by code_simp
  have b: "remove_supersets (cnf 2 [[1]]) = cnf 2 [[1]]" by code_simp
  have c: "var_order stable_qsort (cnf 2 [[1]]) = [1, 0, 2]" by code_simp
  have d: "take (numVars (cnf 2 [[1]])) (var_order stable_qsort (cnf 2 [[1]])) = [1, 0]" by code_simp
  have e: "set [1, 0::nat] \<noteq> {1..2}" by auto
  from a b c e show ?thesis unfolding d by (simp only: simp_thms)
qed

section \<open>Rewinding the undo stack\<close>

lemma stack_apply_op: "stack (apply_op op st) = entry_of op # stack st"
  by (cases op)
     (simp_all add: push_assignment_def set_assignment_def push_clause_satisfy_def
        set_satisfied_def watchtable_add_def watchtable_remove_def)

lemma map_mset_update:
  "map mset xs = map mset ys \<Longrightarrow> mset x = mset y \<Longrightarrow> map mset (xs[i := x]) = map mset (ys[i := y])"
  by (simp add: map_update)

lemma map_mset_nth:
  "map mset xs = map mset ys \<Longrightarrow> i < length ys \<Longrightarrow> mset (xs ! i) = mset (ys ! i)"
  by (metis length_map nth_map)

lemma map_mset_length: "map mset xs = map mset ys \<Longrightarrow> length xs = length ys"
  by (metis length_map)

lemma update_same: "i < length xs \<Longrightarrow> mset (xs ! i) = mset y \<Longrightarrow> map mset (xs[i := y]) = map mset xs"
  by (simp add: map_update list_update_same_conv)

lemma list_update_nth_same: "xs ! i = y \<Longrightarrow> xs[i := y] = xs"
  by (metis list_update_id)

lemma undo_one_op:
  assumes "flips op s" and "same_content t (apply_op op s)"
  shows "same_content (undo_entry (entry_of op) t) s"
proof (cases op)
  case (Assign v x)
  with assms show ?thesis
    by (simp add: same_content_def set_assignment_def push_assignment_def list_update_nth_same)
next
  case (Satisfy i)
  show ?thesis
  proof (cases "i < length (clauses (formula s))")
    case True
    with assms Satisfy show ?thesis
      by (simp add: same_content_def set_satisfied_def push_clause_satisfy_def clause_at_def
          list_update_same_conv)
  next
    case False
    with assms Satisfy show ?thesis
      by (simp add: same_content_def set_satisfied_def push_clause_satisfy_def clause_at_def
          list_update_beyond)
  qed
next
  case (WatchAdd index val)
  show ?thesis
  proof (cases "index < length (watch_lists s)")
    case True
    with assms WatchAdd have "mset (watch_lists t ! index) = mset (watch_lists s ! index @ [val])"
      and len: "length (watch_lists t) = length (watch_lists s)"
      using map_mset_nth [of "watch_lists t" "(watch_lists s)[index := watch_lists s ! index @ [val]]" index]
        map_mset_length [of "watch_lists t" "(watch_lists s)[index := watch_lists s ! index @ [val]]"]
      by (simp_all add: same_content_def watchtable_add_def)
    then have "mset (remove1 val (watch_lists t ! index)) = mset (watch_lists s ! index)"
      by simp
    moreover have "map mset ((watch_lists t)[index := remove1 val (watch_lists t ! index)])
        = (map mset (watch_lists t))[index := mset (remove1 val (watch_lists t ! index))]"
      by (simp add: map_update)
    moreover have "map mset (watch_lists t)
        = (map mset (watch_lists s))[index := mset (watch_lists s ! index @ [val])]"
      using assms WatchAdd by (simp add: same_content_def watchtable_add_def map_update)
    ultimately have "map mset ((watch_lists t)[index := remove1 val (watch_lists t ! index)])
        = map mset (watch_lists s)"
      using True by (simp add: list_update_same_conv)
    with assms WatchAdd show ?thesis
      by (simp add: same_content_def watchtable_add_def)
  next
    case False
    then have "length (watch_lists t) \<le> index"
      using assms WatchAdd map_mset_length [of "watch_lists t" "watch_lists (apply_op op s)"]
      by (simp add: same_content_def watchtable_add_def)
    with False assms WatchAdd show ?thesis
      by (simp add: same_content_def watchtable_add_def list_update_beyond)
  qed
next
  case (WatchRemove index val)
  show ?thesis
  proof (cases "index < length (watch_lists s)")
    case True
    with assms WatchRemove have "mset (watch_lists t ! index) = mset (remove1 val (watch_lists s ! index))"
      using map_mset_nth [of "watch_lists t" "(watch_lists s)[index := remove1 val (watch_lists s ! index)]" index]
      by (simp_all add: same_content_def watchtable_remove_def)
    moreover have "val \<in># mset (watch_lists s ! index)"
      using assms WatchRemove by simp
    ultimately have "mset (watch_lists t ! index @ [val]) = mset (watch_lists s ! index)"
      by simp
    moreover have "map mset ((watch_lists t)[index := watch_lists t ! index @ [val]])
        = (map mset (watch_lists t))[index := mset (watch_lists t ! index @ [val])]"
      by (simp add: map_update)
    moreover have "map mset (watch_lists t)
        = (map mset (watch_lists s))[index := mset (remove1 val (watch_lists s ! index))]"
      using assms WatchRemove by (simp add: same_content_def watchtable_remove_def map_update)
    ultimately have "map mset ((watch_lists t)[index := watch_lists t ! index @ [val]])
        = map mset (watch_lists s)"
      using True by (simp add: list_update_same_conv del: mset_append)
    with assms WatchRemove show ?thesis
      by (simp add: same_content_def watchtable_remove_def)
  next
    case False
    then have "length (watch_lists t) \<le> index"
      using assms WatchRemove map_mset_length [of "watch_lists t" "watch_lists (apply_op op s)"]
      by (simp add: same_content_def watchtable_remove_def)
    with False assms WatchRemove show ?thesis
      by (simp add: same_content_def watchtable_remove_def list_update_beyond)
  qed
qed

lemma all_flips_append:
  "all_flips (ops @ [op]) s = (all_flips ops s \<and> flips op (fold apply_op ops s))"
  by (induction ops arbitrary: s) simp_all

lemma stack_fold_apply_op: "stack (fold apply_op ops s) = rev (map entry_of ops) @ stack s"
  by (induction ops arbitrary: s) (simp_all add: stack_apply_op)

lemma undo_ops:
  "all_flips ops s \<Longrightarrow> same_content t (fold apply_op ops s) \<Longrightarrow>
   \<exists>t'. undo_loop (length (stack s)) (stack (fold apply_op ops s)) t = Some t' \<and>
        same_content t' s \<and> stack t' = stack s \<and> polls t' = polls t"
proof (induction ops arbitrary: t rule: rev_induct)
  case Nil
  then show ?case
    by (cases "stack s") (simp_all add: same_content_def)
next
  case (snoc op ops)
  from snoc.prems have f: "all_flips ops s" "flips op (fold apply_op ops s)"
    by (simp_all add: all_flips_append)
  from snoc.prems(2) have "same_content t (apply_op op (fold apply_op ops s))"
    by simp
  from undo_one_op [OF f(2) this]
  have "same_content (undo_entry (entry_of op) t) (fold apply_op ops s)" .
  from snoc.IH [OF f(1) this]
  obtain t' where t': "undo_loop (length (stack s)) (stack (fold apply_op ops s))
        (undo_entry (entry_of op) t) = Some t'"
      "same_content t' s" "stack t' = stack s" "polls t' = polls (undo_entry (entry_of op) t)"
    by blast
  have p: "polls (undo_entry (entry_of op) t) = polls t"
    by (cases op) (simp_all add: set_assignment_def set_satisfied_def)
  have "undo_loop (length (stack s)) (stack (fold apply_op (ops @ [op]) s)) t
      = undo_loop (length (stack s)) (stack (fold apply_op ops s)) (undo_entry (entry_of op) t)"
    by (simp add: stack_apply_op stack_fold_apply_op)
  with t' p show ?case by auto
qed

text \<open>
  C2, as the code has it. From any state, after any sequence of logged operations
  each of which changes what its entry restores, \<open>undo_to_checkpoint\<close> with the
  checkpoint taken at the start returns, and it restores the assignment array, the
  formula with every flag, the stack, and every watch list as a multiset. The order
  inside a watch list is not restored: a removal is undone by appending.
\<close>

theorem C2_trail_inverse:
  assumes "all_flips ops st"
  shows "\<exists>st'. undo_to_checkpoint (length (stack st)) (fold apply_op ops st) = Some st' \<and>
           assignments st' = assignments st \<and> formula st' = formula st \<and>
           map mset (watch_lists st') = map mset (watch_lists st) \<and>
           stack st' = stack st \<and> polls st' = polls st"
proof -
  have "polls (fold apply_op ops st) = polls st"
  proof (induction ops arbitrary: st)
    case Nil
    show ?case by simp
  next
    case (Cons op ops)
    have "polls (apply_op op st) = polls st"
      by (cases op)
         (simp_all add: push_assignment_def set_assignment_def push_clause_satisfy_def
            set_satisfied_def watchtable_add_def watchtable_remove_def)
    with Cons show ?case by simp
  qed
  moreover have "same_content (fold apply_op ops st) (fold apply_op ops st)"
    by (simp add: same_content_def)
  ultimately show ?thesis
    using undo_ops [OF assms, of "fold apply_op ops st"]
    by (auto simp: undo_to_checkpoint_def same_content_def)
qed

text \<open>The theorem at a decision, a flag, and a relocation on the initial state of
  \<open>1 \<or> 2 \<or> 3\<close>, \<open>1 \<or> \<not>2\<close>.\<close>

theorem C2_witness:
  "all_flips (Assign 2 1 # Satisfy 0 # relocate_example) (initial_state 0 (cnf 3 [[1, 2, 3], [1, -2]])) \<and>
   (\<exists>st'. undo_to_checkpoint (length (stack (initial_state 0 (cnf 3 [[1, 2, 3], [1, -2]]))))
             (fold apply_op (Assign 2 1 # Satisfy 0 # relocate_example)
                (initial_state 0 (cnf 3 [[1, 2, 3], [1, -2]]))) = Some st' \<and>
      assignments st' = assignments (initial_state 0 (cnf 3 [[1, 2, 3], [1, -2]])) \<and>
      formula st' = formula (initial_state 0 (cnf 3 [[1, 2, 3], [1, -2]])) \<and>
      map mset (watch_lists st') = map mset (watch_lists (initial_state 0 (cnf 3 [[1, 2, 3], [1, -2]]))) \<and>
      stack st' = stack (initial_state 0 (cnf 3 [[1, 2, 3], [1, -2]])) \<and>
      polls st' = polls (initial_state 0 (cnf 3 [[1, 2, 3], [1, -2]])))"
proof -
  have h: "all_flips (Assign 2 1 # Satisfy 0 # relocate_example)
      (initial_state 0 (cnf 3 [[1, 2, 3], [1, -2]]))"
    by code_simp
  from h C2_trail_inverse [OF h] show ?thesis by (rule conjI)
qed

text \<open>
  C2 as stated fails on the order of the watch lists. Rewinding the relocation alone
  turns the list \<open>[0, 1]\<close> of literal 1 into \<open>[1, 0]\<close>. In a run of the program: on
  \<open>p cnf 4 4\<close>, \<open>-1 -3 -4 0\<close>, \<open>-1 4 0\<close>, \<open>1 0\<close>, \<open>3 0\<close> the top call of \<open>dpll\<close>
  meets a conflict in the propagator and rewinds to its checkpoint, the empty stack;
  the list of literal \<open>\<not>1\<close> was \<open>[0, 1]\<close> before the search and is \<open>[1, 0]\<close> after.
\<close>

theorem C2_counterexample:
  "all_flips relocate_example (initial_state 0 (cnf 3 [[1, 2, 3], [1, -2]])) \<and>
   watch_lists (initial_state 0 (cnf 3 [[1, 2, 3], [1, -2]])) = [[], [0, 1], [0], [], [], [1], []] \<and>
   map_option watch_lists
     (undo_to_checkpoint 0 (fold apply_op relocate_example (initial_state 0 (cnf 3 [[1, 2, 3], [1, -2]]))))
     = Some [[], [1, 0], [0], [], [], [1], []] \<and>
   watch_lists (initial_state 0 (remove_supersets (cnf 4 [[-1, -3, -4], [-1, 4], [1], [3]])))
     = [[], [2], [], [3], [1], [0, 1], [], [0], []] \<and>
   map_option fst (solve stable_qsort 0 never (cnf 4 [[-1, -3, -4], [-1, 4], [1], [3]]))
     = Some UNSAT \<and>
   map_option (stack \<circ> snd) (solve stable_qsort 0 never (cnf 4 [[-1, -3, -4], [-1, 4], [1], [3]]))
     = Some [] \<and>
   map_option (watch_lists \<circ> snd) (solve stable_qsort 0 never (cnf 4 [[-1, -3, -4], [-1, 4], [1], [3]]))
     = Some [[], [2], [], [3], [1], [1, 0], [], [0], []]"
  by code_simp

section \<open>The driver after its sweep\<close>





section \<open>Rewinding along a search path\<close>

lemma rewound_refl [simp]: "rewound s s"
  by (simp add: rewound_def)

lemma rewound_trans: "rewound s t \<Longrightarrow> rewound t u \<Longrightarrow> rewound s u"
  unfolding rewound_def
  by (metis length_map)

lemma reach_trans:
  assumes "reach a b"
  shows "reach b c \<Longrightarrow> reach a c"
  by (induction rule: reach.induct) (auto intro: reach.intros assms)

lemma literals_flag_update:
  "map literals (cs[i := (cs ! i)\<lparr>satisfied := b\<rparr>]) = map literals cs"
  by (cases "i < length cs") (simp_all add: map_update list_update_same_conv list_update_beyond)

lemma reach_stack: "reach b s \<Longrightarrow> \<exists>es. stack s = es @ stack b"
  by (induction rule: reach.induct) (auto simp: stack_apply_op)

lemma literals_apply_op:
  "map literals (clauses (formula (apply_op op s))) = map literals (clauses (formula s)) \<and>
   numVars (formula (apply_op op s)) = numVars (formula s)"
  by (cases op)
     (simp_all add: push_assignment_def set_assignment_def push_clause_satisfy_def
        set_satisfied_def watchtable_add_def watchtable_remove_def literals_flag_update)

lemma reach_literals:
  "reach b s \<Longrightarrow>
   map literals (clauses (formula s)) = map literals (clauses (formula b)) \<and>
   numVars (formula s) = numVars (formula b)"
  by (induction rule: reach.induct) (auto simp: literals_apply_op rewound_def)

lemma satisfied_update:
  "i < length cs \<Longrightarrow> satisfied ((cs[j := (cs ! j)\<lparr>satisfied := b\<rparr>]) ! i) = (if i = j then b else satisfied (cs ! i))"
  by (simp add: nth_list_update)

lemma undo_logged_op:
  assumes "logged op s" and "rewound (apply_op op s) t"
  shows "rewound s (undo_entry (entry_of op) t)"
proof (cases op)
  case (Assign v x)
  with assms show ?thesis
    by (simp add: rewound_def set_assignment_def push_assignment_def list_update_nth_same)
next
  case (Satisfy i)
  from assms Satisfy have len: "length (clauses (formula t)) = length (clauses (formula s))"
    unfolding rewound_def by (metis length_map length_list_update literals_apply_op)
  from assms Satisfy have lits: "map literals (clauses (formula t)) = map literals (clauses (formula s))"
    unfolding rewound_def using literals_apply_op [of op s] by simp
  have "map literals ((clauses (formula t))[i := (clauses (formula t) ! i)\<lparr>satisfied := False\<rparr>])
      = map literals (clauses (formula t))"
    by (rule literals_flag_update)
  moreover have "satisfied ((clauses (formula t))[i := (clauses (formula t) ! i)\<lparr>satisfied := False\<rparr>] ! j)
      \<longrightarrow> satisfied (clauses (formula s) ! j)" if "j < length (clauses (formula s))" for j
  proof (cases "j = i")
    case True
    with that len show ?thesis by simp
  next
    case False
    with that len assms Satisfy show ?thesis
      by (auto simp: rewound_def set_satisfied_def push_clause_satisfy_def nth_list_update)
  qed
  ultimately show ?thesis
    using assms Satisfy lits
    by (simp add: rewound_def set_satisfied_def push_clause_satisfy_def)
next
  case (WatchAdd index val)
  have "same_content (undo_entry (entry_of op) (t\<lparr>formula := formula s\<rparr>)) s"
    using assms WatchAdd
    by (intro undo_one_op) (simp_all add: same_content_def rewound_def watchtable_add_def)
  with assms WatchAdd show ?thesis
    by (simp add: same_content_def rewound_def watchtable_add_def)
next
  case (WatchRemove index val)
  have "same_content (undo_entry (entry_of op) (t\<lparr>formula := formula s\<rparr>)) s"
    using assms WatchRemove
    by (intro undo_one_op) (simp_all add: same_content_def rewound_def watchtable_remove_def)
  with assms WatchRemove show ?thesis
    by (simp add: same_content_def rewound_def watchtable_remove_def)
qed

lemma polls_undo_entry [simp]: "polls (undo_entry e t) = polls t"
  by (cases e) (simp_all add: set_assignment_def set_satisfied_def)

lemma undo_loop_reach:
  "reach b s \<Longrightarrow> rewound s t \<Longrightarrow>
   \<exists>t'. undo_loop (length (stack b)) (stack s) t = Some t' \<and> rewound b t' \<and>
        stack t' = stack b \<and> polls t' = polls t"
proof (induction arbitrary: t rule: reach.induct)
  case reach_refl
  then show ?case
    by (cases "stack b") (simp_all add: rewound_def)
next
  case (reach_op s op)
  from reach_stack [OF reach_op.hyps(1)] obtain es where es: "stack s = es @ stack b" ..
  have "rewound s (undo_entry (entry_of op) t)"
    using reach_op.hyps(2) reach_op.prems by (rule undo_logged_op)
  from reach_op.IH [OF this] es show ?case
    by (simp add: stack_apply_op)
next
  case (reach_jump s u)
  from reach_jump.hyps(2) reach_jump.prems have "rewound s t"
    by (rule rewound_trans)
  from reach_jump.IH [OF this] reach_jump.hyps(3) show ?case
    by simp
qed

lemma undo_to_checkpoint_reach:
  assumes "reach b s"
  shows "\<exists>t. undo_to_checkpoint (length (stack b)) s = Some t \<and> rewound b t \<and>
        stack t = stack b \<and> polls t = polls s"
  using undo_loop_reach [OF assms rewound_refl] by (simp add: undo_to_checkpoint_def)

section \<open>The invariant of the search\<close>

lemma frame_set_satisfied [frame]:
  "assignments (set_satisfied i b st) = assignments st"
  "stack (set_satisfied i b st) = stack st"
  "watch_lists (set_satisfied i b st) = watch_lists st"
  "polls (set_satisfied i b st) = polls st"
  "numVars (formula (set_satisfied i b st)) = numVars (formula st)"
  "length (clauses (formula (set_satisfied i b st))) = length (clauses (formula st))"
  "map literals (clauses (formula (set_satisfied i b st))) = map literals (clauses (formula st))"
  by (simp_all add: set_satisfied_def literals_flag_update)

lemma frame_set_assignment [frame]:
  "formula (set_assignment v x st) = formula st"
  "stack (set_assignment v x st) = stack st"
  "watch_lists (set_assignment v x st) = watch_lists st"
  "polls (set_assignment v x st) = polls st"
  "length (assignments (set_assignment v x st)) = length (assignments st)"
  "assignments (set_assignment v x st) = (assignments st)[v := x]"
  by (simp_all add: set_assignment_def)

lemma frame_push [frame]:
  "formula (push_assignment v st) = formula st"
  "assignments (push_assignment v st) = assignments st"
  "watch_lists (push_assignment v st) = watch_lists st"
  "polls (push_assignment v st) = polls st"
  "formula (push_clause_satisfy i st) = formula st"
  "assignments (push_clause_satisfy i st) = assignments st"
  "watch_lists (push_clause_satisfy i st) = watch_lists st"
  "polls (push_clause_satisfy i st) = polls st"
  by (simp_all add: push_assignment_def push_clause_satisfy_def)

lemma frame_watchtable [frame]:
  "formula (watchtable_add k c st) = formula st"
  "assignments (watchtable_add k c st) = assignments st"
  "polls (watchtable_add k c st) = polls st"
  "length (watch_lists (watchtable_add k c st)) = length (watch_lists st)"
  "formula (watchtable_remove k c st) = formula st"
  "assignments (watchtable_remove k c st) = assignments st"
  "polls (watchtable_remove k c st) = polls st"
  "length (watch_lists (watchtable_remove k c st)) = length (watch_lists st)"
  by (simp_all add: watchtable_add_def watchtable_remove_def)

lemma literals_clause_at:
  "map literals (clauses (formula t)) = map literals (clauses (formula s)) \<Longrightarrow>
   i < length (clauses (formula s)) \<Longrightarrow> literals (clause_at t i) = literals (clause_at s i)"
  unfolding clause_at_def by (metis length_map nth_map)

lemma literals_set_satisfied [frame]:
  "literals (clause_at (set_satisfied i b st) j) = literals (clause_at st j)"
  by (cases "i < length (clauses (formula st))")
     (simp_all add: set_satisfied_def clause_at_def nth_list_update list_update_beyond)

lemma satisfied_set_satisfied:
  "j < length (clauses (formula st)) \<Longrightarrow>
   satisfied (clause_at (set_satisfied i b st) j) = (if j = i then b else satisfied (clause_at st j))"
  by (simp add: set_satisfied_def clause_at_def nth_list_update)

lemma clause_at_push [frame]:
  "clause_at (push_clause_satisfy i st) j = clause_at st j"
  "clause_at (push_assignment v st) j = clause_at st j"
  "clause_at (set_assignment v x st) j = clause_at st j"
  "clause_at (watchtable_add k c st) j = clause_at st j"
  "clause_at (watchtable_remove k c st) j = clause_at st j"
  by (simp_all add: clause_at_def frame)

lemma inv_rewound:
  assumes "inv s" "rewound s t"
  shows "inv t"
proof -
  from assms(2) have lits: "map literals (clauses (formula t)) = map literals (clauses (formula s))"
    and nv: "numVars (formula t) = numVars (formula s)"
    and a: "assignments t = assignments s"
    and w: "map mset (watch_lists t) = map mset (watch_lists s)"
    and fl: "\<And>i. i < length (clauses (formula s)) \<Longrightarrow>
          satisfied (clauses (formula t) ! i) \<Longrightarrow> satisfied (clauses (formula s) ! i)"
    by (simp_all add: rewound_def)
  from lits have len: "length (clauses (formula t)) = length (clauses (formula s))"
    by (metis length_map)
  from w have wlen: "length (watch_lists t) = length (watch_lists s)"
    by (metis length_map)
  have wset: "set (watch_lists t ! k) = set (watch_lists s ! k)" if "k < length (watch_lists s)" for k
    using map_mset_nth [OF w that] by (metis set_mset_mset)
  have cl: "literals (clause_at t i) = literals (clause_at s i)" if "i < length (clauses (formula s))" for i
    using literals_clause_at [OF lits that] .
  have "wf_formula (formula t)"
  proof -
    have "list_all (wf_lit (numVars (formula s))) ls" if "ls \<in> set (map literals (clauses (formula s)))" for ls
      using assms(1) that by (auto simp: inv_def wf_state_def wf_formula_def list_all_iff)
    then show ?thesis
      unfolding wf_formula_def nv list_all_iff using lits by (metis image_eqI list.set_map)
  qed
  then have "wf_state t"
    using assms(1) a nv wlen by (simp add: inv_def wf_state_def)
  moreover have "watch_ok t"
    unfolding watch_ok_def
  proof (intro allI impI ballI)
    fix k c assume k: "k < length (watch_lists t)" and c: "c \<in> set (watch_lists t ! k)"
    from k c wlen wset have "c \<in> set (watch_lists s ! k)" "k < length (watch_lists s)" by auto
    with assms(1) have "c < length (clauses (formula s))"
      "\<exists>l \<in> set (literals (clause_at s c)). watchlist_index l (numVars (formula s)) = k"
      by (auto simp: inv_def watch_ok_def)
    with cl [of c] len nv
    show "c < length (clauses (formula t)) \<and>
        (\<exists>l \<in> set (literals (clause_at t c)). watchlist_index l (numVars (formula t)) = k)"
      by simp
  qed
  moreover have "flags_ok t"
    unfolding flags_ok_def
  proof (intro allI impI)
    fix i assume i: "i < length (clauses (formula t))" and s: "satisfied (clause_at t i)"
    with fl [of i] len have "satisfied (clause_at s i)" by (simp add: clause_at_def)
    with assms(1) i len have "list_ex (lit_true (assignments s)) (literals (clause_at s i))"
      by (simp add: inv_def flags_ok_def)
    with cl [of i] i len a show "list_ex (lit_true (assignments t)) (literals (clause_at t i))"
      by simp
  qed
  moreover have "vals_ok t"
    using assms(1) a nv by (simp add: inv_def vals_ok_def)
  ultimately show ?thesis by (simp add: inv_def)
qed

lemma lit_true_assign:
  "a ! v = - 1 \<Longrightarrow> lit_true a l \<Longrightarrow> lit_true (a[v := x]) l"
  by (cases "var l = v") (auto simp: lit_true_def)

lemma inv_assign:
  assumes "inv s" "assignments s ! v = - 1" "x = 0 \<or> x = 1"
  shows "inv (apply_op (Assign v x) s)"
proof -
  have "vals_ok (apply_op (Assign v x) s)"
    unfolding vals_ok_def
  proof (intro allI impI)
    fix w assume w: "1 \<le> w \<and> w \<le> numVars (formula (apply_op (Assign v x) s))"
    then have "w < length (assignments s)"
      using assms(1) by (simp add: inv_def wf_state_def frame)
    with w assms show "assignments (apply_op (Assign v x) s) ! w = - 1 \<or>
        assignments (apply_op (Assign v x) s) ! w = 0 \<or> assignments (apply_op (Assign v x) s) ! w = 1"
      by (cases "w = v") (auto simp: inv_def vals_ok_def frame)
  qed
  moreover
  have "flags_ok (apply_op (Assign v x) s)"
    using assms
    by (auto simp: inv_def flags_ok_def frame list_ex_iff intro: lit_true_assign)
  moreover have "wf_state (apply_op (Assign v x) s)" "watch_ok (apply_op (Assign v x) s)"
    using assms(1) by (simp_all add: inv_def wf_state_def watch_ok_def frame)
  ultimately show ?thesis by (simp add: inv_def)
qed

lemma inv_satisfy:
  assumes "inv s" "list_ex (lit_true (assignments s)) (literals (clause_at s i))"
  shows "inv (apply_op (Satisfy i) s)"
proof -
  have "wf_formula (formula (set_satisfied i True s))"
    using assms(1) frame_set_satisfied(5,7) [of i True s]
    unfolding inv_def wf_state_def wf_formula_def list_all_iff
    by (metis (no_types, lifting) image_iff list.set_map)
  then have "wf_state (apply_op (Satisfy i) s)"
    using assms(1) by (simp add: inv_def wf_state_def frame)
  moreover have "watch_ok (apply_op (Satisfy i) s)"
    using assms(1) by (simp add: inv_def watch_ok_def frame)
  moreover have "flags_ok (apply_op (Satisfy i) s)"
    using assms by (auto simp: inv_def flags_ok_def frame satisfied_set_satisfied)
  moreover have "vals_ok (apply_op (Satisfy i) s)"
    using assms(1) by (simp add: inv_def vals_ok_def frame)
  ultimately show ?thesis by (simp add: inv_def)
qed

subsection \<open>The propagator keeps the invariant\<close>

lemma watchlist_index_inj:
  "wf_lit n l \<Longrightarrow> wf_lit n l' \<Longrightarrow> watchlist_index l n = watchlist_index l' n \<Longrightarrow>
   var l = var l' \<and> neg l = neg l'"
  by (auto simp: wf_lit_def watchlist_index_def split: if_splits)

lemma watchlist_index_bound: "wf_lit n l \<Longrightarrow> watchlist_index l n < n * 2 + 1"
  by (auto simp: wf_lit_def watchlist_index_def)

lemma wf_clause_lit:
  "inv s \<Longrightarrow> c < length (clauses (formula s)) \<Longrightarrow> l \<in> set (literals (clause_at s c)) \<Longrightarrow>
   wf_lit (numVars (formula s)) l"
  by (auto simp: inv_def wf_state_def wf_formula_def list_all_iff clause_at_def)

lemma reach_step: "logged op s \<Longrightarrow> reach s (apply_op op s)"
  by (rule reach_op [OF reach_refl])

lemma reach_mark_clause: "reach s (mark_clause i s)"
  using reach_step [of "Satisfy i" s] by (simp add: mark_clause_def reach_refl)

lemma inv_mark_clause:
  "inv s \<Longrightarrow> list_ex (lit_true (assignments s)) (literals (clause_at s i)) \<Longrightarrow> inv (mark_clause i s)"
  using inv_satisfy [of s i] by (simp add: mark_clause_def)

lemma frame_mark_clause [frame]:
  "assignments (mark_clause i s) = assignments s"
  "numVars (formula (mark_clause i s)) = numVars (formula s)"
  "length (clauses (formula (mark_clause i s))) = length (clauses (formula s))"
  "literals (clause_at (mark_clause i s) j) = literals (clause_at s j)"
  "polls (mark_clause i s) = polls s"
  by (simp_all add: mark_clause_def frame)

lemma fold_mark_clause:
  "inv s \<Longrightarrow> \<forall>c \<in> set ws. list_ex (lit_true (assignments s)) (literals (clause_at s c)) \<Longrightarrow>
   reach s (fold mark_clause ws s) \<and> inv (fold mark_clause ws s) \<and>
   assignments (fold mark_clause ws s) = assignments s"
proof (induction ws arbitrary: s)
  case Nil
  then show ?case by (simp add: reach_refl)
next
  case (Cons c ws)
  have i: "inv (mark_clause c s)"
    using Cons.prems by (simp add: inv_mark_clause)
  have "\<forall>c' \<in> set ws. list_ex (lit_true (assignments (mark_clause c s)))
       (literals (clause_at (mark_clause c s) c'))"
    using Cons.prems(2) by (simp add: frame)
  from Cons.IH [OF i this] reach_mark_clause [of s c] show ?case
    by (auto intro: reach_trans simp: frame)
qed

lemma force_literal_inv:
  assumes "inv s" and "assignments s ! var lit = - 1" and "wf_lit (numVars (formula s)) lit"
  shows "reach s (force_literal lit s) \<and> inv (force_literal lit s) \<and>
         assignments (force_literal lit s) = (assignments s)[var lit := (if neg lit then 0 else 1)]"
proof -
  let ?x = "if neg lit then 0 else 1 :: int"
  let ?s1 = "apply_op (Assign (var lit) ?x) s"
  let ?ws = "watch_lists ?s1 ! watchlist_index lit (numVars (formula ?s1))"
  have f: "force_literal lit s = fold mark_clause ?ws ?s1"
    by (simp add: force_literal_def Let_def)
  have i1: "inv ?s1" using assms(1,2) by (rule inv_assign) simp
  have r1: "reach s ?s1" using assms(2) by (intro reach_step) simp
  have a1: "assignments ?s1 = (assignments s)[var lit := ?x]"
    by (simp add: frame)
  have vlt: "var lit < length (assignments s)"
    using assms(1,3) by (simp add: inv_def wf_state_def wf_lit_def)
  have "list_ex (lit_true (assignments ?s1)) (literals (clause_at ?s1 c))" if c: "c \<in> set ?ws" for c
  proof -
    have k: "watchlist_index lit (numVars (formula s)) < length (watch_lists s)"
      using assms(1,3) watchlist_index_bound [of "numVars (formula s)" lit]
      by (simp add: inv_def wf_state_def)
    from c have c': "c \<in> set (watch_lists s ! watchlist_index lit (numVars (formula s)))"
      by (simp add: frame)
    with assms(1) k obtain l where l: "c < length (clauses (formula s))"
        "l \<in> set (literals (clause_at s c))"
        "watchlist_index l (numVars (formula s)) = watchlist_index lit (numVars (formula s))"
      by (auto simp: inv_def watch_ok_def)
    from wf_clause_lit [OF assms(1) l(1,2)] assms(3) l(3)
    have "var l = var lit \<and> neg l = neg lit"
      by (rule watchlist_index_inj)
    then have "lit_true (assignments ?s1) l"
      using vlt by (cases "neg lit") (simp_all add: lit_true_def frame)
    with l(2) show ?thesis
      by (auto simp: list_ex_iff frame)
  qed
  then have "\<forall>c \<in> set ?ws. list_ex (lit_true (assignments ?s1)) (literals (clause_at ?s1 c))"
    by blast
  from fold_mark_clause [OF i1 this] r1 a1 show ?thesis
    unfolding f by (auto intro: reach_trans)
qed

lemma relocate_set:
  assumes "j < length wl"
    and "d \<in> set ((wl[k := remove1 c (wl ! k)])[k' := (wl[k := remove1 c (wl ! k)]) ! k' @ [c]] ! j)"
  shows "d \<in> set (wl ! j) \<or> (d = c \<and> j = k')"
proof -
  have sub: "set (remove1 c (wl ! k)) \<subseteq> set (wl ! k)" by (rule set_remove1_subset)
  have old: "set (wl[k := remove1 c (wl ! k)] ! j) \<subseteq> set (wl ! j)"
    using sub assms(1) by (cases "j = k") (simp_all add: nth_list_update)
  show ?thesis
  proof (cases "j = k'")
    case True
    with assms have "d \<in> set (wl[k := remove1 c (wl ! k)] ! j) \<or> d = c"
      by (auto simp: nth_list_update)
    with old True show ?thesis by auto
  next
    case False
    with assms have "d \<in> set (wl[k := remove1 c (wl ! k)] ! j)"
      by (simp add: nth_list_update)
    with old show ?thesis by auto
  qed
qed

lemma inv_relocate:
  assumes "inv s" and "c \<in> set (watch_lists s ! k)" and "k < length (watch_lists s)"
    and "l \<in> set (literals (clause_at s c))" and "wf_lit (numVars (formula s)) l"
    and "k' = watchlist_index l (numVars (formula s))"
  shows "reach s (watchtable_add k' c (watchtable_remove k c s)) \<and>
         inv (watchtable_add k' c (watchtable_remove k c s)) \<and>
         assignments (watchtable_add k' c (watchtable_remove k c s)) = assignments s"
proof -
  let ?s1 = "watchtable_remove k c s"
  let ?s2 = "watchtable_add k' c ?s1"
  have "reach s (apply_op (WatchAdd k' c) (apply_op (WatchRemove k c) s))"
    using assms(2) by (intro reach_op reach_refl) simp_all
  then have r: "reach s ?s2" by simp
  have cb: "c < length (clauses (formula s))"
    using assms(1,2,3) by (auto simp: inv_def watch_ok_def)
  have w: "wf_state ?s2" "flags_ok ?s2" "vals_ok ?s2"
    using assms(1) by (simp_all add: inv_def wf_state_def flags_ok_def vals_ok_def frame)
  have "watch_ok ?s2"
    unfolding watch_ok_def
  proof (intro allI impI ballI)
    fix j d assume j: "j < length (watch_lists ?s2)" and d: "d \<in> set (watch_lists ?s2 ! j)"
    from j have j': "j < length (watch_lists s)" by (simp add: frame)
    have "d \<in> set (watch_lists s ! j) \<or> (d = c \<and> j = k')"
      using d j' relocate_set [of j "watch_lists s" d k c k']
      by (simp add: watchtable_add_def watchtable_remove_def)
    then show "d < length (clauses (formula ?s2)) \<and>
        (\<exists>l \<in> set (literals (clause_at ?s2 d)). watchlist_index l (numVars (formula ?s2)) = j)"
    proof
      assume "d \<in> set (watch_lists s ! j)"
      with assms(1) j' show ?thesis by (auto simp: inv_def watch_ok_def frame)
    next
      assume "d = c \<and> j = k'"
      with cb assms(4,6) show ?thesis by (auto simp: frame)
    qed
  qed
  with w r show ?thesis by (simp add: inv_def frame)
qed

lemma find_other_result:
  "find_other wl n oplit indexi ls = l \<Longrightarrow> var l \<noteq> 0 \<Longrightarrow>
   l \<in> set ls \<and> indexi \<in> set (wl ! watchlist_index l n) \<and>
   \<not> (var l = var oplit \<and> neg l = neg oplit)"
  by (induction ls) (auto simp: no_literal_def Let_def split: if_splits)

lemma find_replacement_result:
  "find_replacement a n index other ls = Some nlit \<Longrightarrow>
   nlit \<in> set ls \<and> watchlist_index nlit n \<noteq> index \<and>
   \<not> (var nlit = var other \<and> neg nlit = neg other) \<and>
   (a ! var nlit = - 1 \<or> lit_true a nlit)"
  by (induction ls) (auto simp: lit_true_def split: if_splits)

lemma visit_clause_inv:
  assumes "inv s" and "index < length (watch_lists s)" and "indexi \<in> set (watch_lists s ! index)"
    and "wf_lit (numVars (formula s)) oplit" and "wf_queue s q"
    and "visit_clause index oplit indexi s q = (ok, s', q')"
  shows "reach s s' \<and> inv s' \<and> wf_queue s' q'"
proof -
  let ?n = "numVars (formula s)"
  let ?c = "clause_at s indexi"
  let ?other = "find_other (watch_lists s) ?n oplit indexi (literals ?c)"
  have cb: "indexi < length (clauses (formula s))"
    using assms(1,2,3) by (auto simp: inv_def watch_ok_def)
  have same: "reach s s \<and> inv s" using assms(1) by (simp add: reach_refl)
  show ?thesis
  proof (cases "satisfied ?c")
    case True
    with assms same show ?thesis by (auto simp: visit_clause_def Let_def)
  next
    case unflagged: False
    show ?thesis
    proof (cases "var ?other = 0")
      case True
      with unflagged assms same show ?thesis
        by (auto simp: visit_clause_def Let_def wf_queue_def split: if_splits)
    next
      case other: False
      from find_other_result [OF refl other]
      have o: "?other \<in> set (literals ?c)" by simp
      have wo: "wf_lit ?n ?other" using wf_clause_lit [OF assms(1) cb o] .
      show ?thesis
      proof (cases "lit_true (assignments s) ?other")
        case True
        with unflagged other assms same show ?thesis
          by (auto simp: visit_clause_def Let_def)
      next
        case nottrue: False
        show ?thesis
        proof (cases "find_replacement (assignments s) ?n index ?other (literals ?c)")
          case (Some nlit)
          from find_replacement_result [OF Some] have nl: "nlit \<in> set (literals ?c)" by simp
          have res: "s' = watchtable_add (watchlist_index nlit ?n) indexi (watchtable_remove index indexi s)"
              "q' = q"
            using assms(6) unflagged other nottrue Some by (simp_all add: visit_clause_def Let_def)
          from inv_relocate [OF assms(1) assms(3) assms(2) nl wf_clause_lit [OF assms(1) cb nl] refl]
          show ?thesis
            using assms(5) unfolding res by (simp add: wf_queue_def frame)
        next
          case None
          show ?thesis
          proof (cases "assignments s ! var ?other = - 1")
            case True
            then have res: "s' = force_literal ?other s" "q' = q @ [?other]"
              using assms(6) unflagged other nottrue None by (simp_all add: visit_clause_def Let_def)
            from force_literal_inv [OF assms(1) True wo] reach_literals [of s "force_literal ?other s"]
            show ?thesis
              using assms(5) wo unfolding res by (auto simp: wf_queue_def)
          next
            case False
            then have "s' = s" "q' = []"
              using assms(6) unflagged other nottrue None by (simp_all add: visit_clause_def Let_def)
            with same show ?thesis by (simp add: wf_queue_def)
          qed
        qed
      qed
    qed
  qed
qed

lemma inv_lengths:
  "inv s \<Longrightarrow> length (watch_lists s) = numVars (formula s) * 2 + 1"
  by (simp add: inv_def wf_state_def)

lemma visit_watchers_inv:
  "inv s \<Longrightarrow> index < length (watch_lists s) \<Longrightarrow> wf_lit (numVars (formula s)) oplit \<Longrightarrow>
   wf_queue s q \<Longrightarrow> visit_watchers index oplit i s q = (ok, s', q') \<Longrightarrow>
   reach s s' \<and> inv s' \<and> wf_queue s' q'"
proof (induction index oplit i s q rule: visit_watchers.induct)
  case (1 index oplit i st queue)
  show ?case
  proof (cases "i < length (watch_lists st ! index)")
    case False
    with "1.prems" show ?thesis
      by (simp add: visit_watchers.simps [of index oplit i st queue] reach_refl)
  next
    case True
    obtain ok1 s1 q1 where v: "visit_clause index oplit (watch_lists st ! index ! i) st queue = (ok1, s1, q1)"
      by (cases "visit_clause index oplit (watch_lists st ! index ! i) st queue") auto
    have mem: "watch_lists st ! index ! i \<in> set (watch_lists st ! index)"
      using True by simp
    from visit_clause_inv [OF "1.prems"(1,2) mem "1.prems"(3,4) v]
    have s1: "reach st s1" "inv s1" "wf_queue s1 q1" by simp_all
    show ?thesis
    proof (cases ok1)
      case False
      with True v "1.prems"(5) s1 show ?thesis
        by (simp add: visit_watchers.simps [of index oplit i st queue])
    next
      case ok: True
      from True v ok "1.prems"(5)
      have rec: "visit_watchers index oplit (i + 1) s1 q1 = (ok, s', q')"
        by (simp add: visit_watchers.simps [of index oplit i st queue])
      have n: "numVars (formula s1) = numVars (formula st)"
        using reach_literals [OF s1(1)] by simp
      have idx: "index < length (watch_lists s1)"
        using "1.prems"(1,2) s1(2) n by (simp add: inv_lengths)
      have wl: "wf_lit (numVars (formula s1)) oplit"
        using "1.prems"(3) n by simp
      from "1.IH" [OF True v [symmetric] refl ok s1(2) idx wl s1(3) rec] s1(1)
      show ?thesis by (auto intro: reach_trans)
    qed
  qed
qed

lemma propagate_literal_inv:
  assumes "inv s" and "wf_lit (numVars (formula s)) l" and "wf_queue s q"
    and "propagate_literal l s q = (ok, s', q')"
  shows "reach s s' \<and> inv s' \<and> wf_queue s' q'"
proof -
  let ?s1 = "if assignments s ! var l = - 1 then force_literal l s else s"
  let ?oplit = "\<lparr>var = var l, neg = \<not> neg l\<rparr>"
  have s1: "reach s ?s1 \<and> inv ?s1"
    using force_literal_inv [OF assms(1) _ assms(2)] assms(1) by (simp add: reach_refl)
  then have n: "numVars (formula ?s1) = numVars (formula s)"
    using reach_literals [of s ?s1] by blast
  have wo: "wf_lit (numVars (formula ?s1)) ?oplit"
    using assms(2) unfolding n by (simp add: wf_lit_def)
  have idx: "watchlist_index ?oplit (numVars (formula ?s1)) < length (watch_lists ?s1)"
    using watchlist_index_bound [OF wo] s1 by (simp add: inv_lengths)
  have q: "wf_queue ?s1 q"
    using assms(3) n by (simp add: wf_queue_def)
  have "visit_watchers (watchlist_index ?oplit (numVars (formula ?s1))) ?oplit 0 ?s1 q = (ok, s', q')"
    using assms(4) by (simp add: propagate_literal_def Let_def)
  from visit_watchers_inv [OF _ idx wo q this] s1 show ?thesis
    by (auto intro: reach_trans)
qed

lemma propagate_loop_inv_aux:
  assumes "propagate_loop s q = Some r"
  shows "inv s \<longrightarrow> wf_queue s q \<longrightarrow> reach s (snd r) \<and> inv (snd r)"
proof (rule propagate_loop.raw_induct
    [where P = "\<lambda>s q r. inv s \<longrightarrow> wf_queue s q \<longrightarrow> reach s (snd r) \<and> inv (snd r)", OF _ assms])
  fix loop :: "State \<Rightarrow> Literal list \<Rightarrow> (bool \<times> State) option" and st queue r
  assume IH: "\<And>st queue r. loop st queue = Some r \<Longrightarrow>
      inv st \<longrightarrow> wf_queue st queue \<longrightarrow> reach st (snd r) \<and> inv (snd r)"
    and body: "(case queue of [] \<Rightarrow> Some (True, st)
      | l # rest \<Rightarrow>
          (case propagate_literal l st rest of
             (ok, st', queue') \<Rightarrow> if ok then loop st' queue' else Some (False, st'))) = Some r"
  show "inv st \<longrightarrow> wf_queue st queue \<longrightarrow> reach st (snd r) \<and> inv (snd r)"
  proof (intro impI)
    assume i: "inv st" and w: "wf_queue st queue"
    show "reach st (snd r) \<and> inv (snd r)"
    proof (cases queue)
      case Nil
      with body i show ?thesis by (auto simp: reach_refl)
    next
      case (Cons l rest)
      obtain ok s' q' where p: "propagate_literal l st rest = (ok, s', q')"
        by (cases "propagate_literal l st rest") auto
      have wl: "wf_lit (numVars (formula st)) l" "wf_queue st rest"
        using w Cons by (simp_all add: wf_queue_def)
      from propagate_literal_inv [OF i wl p]
      have s': "reach st s'" "inv s'" "wf_queue s' q'" by simp_all
      show ?thesis
      proof (cases ok)
        case True
        with body Cons p have "loop s' q' = Some r" by simp
        from IH [OF this] s' show ?thesis by (auto intro: reach_trans)
      next
        case False
        with body Cons p s' show ?thesis by auto
      qed
    qed
  qed
qed

lemma propagate_loop_inv:
  "propagate_loop s q = Some r \<Longrightarrow> inv s \<Longrightarrow> wf_queue s q \<Longrightarrow> reach s (snd r) \<and> inv (snd r)"
  using propagate_loop_inv_aux by blast

lemma seeds_by_flag_subset: "set (seeds_by_flag a c) \<subseteq> set (literals c)"
  by (auto simp: seeds_by_flag_def unassigned_literals_def split: if_splits)

lemma wf_seed_queue: "inv s \<Longrightarrow> wf_queue s (seed_queue s)"
  using seeds_by_flag_subset
  by (fastforce simp: wf_queue_def seed_queue_def seed_loop_eq seed_clause_eq list_all_iff
      inv_def wf_state_def wf_formula_def)

lemma unit_propagate_inv:
  "unit_propagate_2watchlit s = Some (ok, s') \<Longrightarrow> inv s \<Longrightarrow> reach s s' \<and> inv s'"
  using propagate_loop_inv [of s "seed_queue s" "(ok, s')"] wf_seed_queue [of s]
  by (simp add: unit_propagate_2watchlit_def)

lemma grows_refl [simp]: "grows pn pn"
  by (simp add: grows_def)

lemma grows_trans: "grows a b \<Longrightarrow> grows b c \<Longrightarrow> grows a c"
  by (simp add: grows_def)

subsection \<open>The pure-literal pass keeps the invariant\<close>

lemma nth_update_True: "v < length xs \<Longrightarrow> xs ! v \<Longrightarrow> xs[i := True] ! v"
  by (cases "i = v") simp_all

lemma grows_note_literal: "grows pn (note_literal a l pn)"
  by (simp add: grows_def note_literal_def nth_update_True)

lemma grows_fold_note_literal: "grows pn (fold (note_literal a) ls pn)"
proof (induction ls arbitrary: pn)
  case Nil
  show ?case by simp
next
  case (Cons x ls)
  from grows_trans [OF grows_note_literal Cons.IH] show ?case by simp
qed

lemma grows_note_clause: "grows pn (note_clause a c pn)"
  by (simp add: note_clause_def grows_fold_note_literal)

lemma grows_fold_note_clause: "grows pn (fold (note_clause a) cs pn)"
proof (induction cs arbitrary: pn)
  case Nil
  show ?case by simp
next
  case (Cons x cs)
  from grows_trans [OF grows_note_clause Cons.IH] show ?case by simp
qed

lemma grows_seen:
  "grows pn pn' \<Longrightarrow> var l < length (fst pn) \<Longrightarrow> var l < length (snd pn) \<Longrightarrow> seen pn l \<Longrightarrow> seen pn' l"
  by (auto simp: grows_def seen_def split: if_splits)

lemma seen_note_literal:
  "a ! var l = - 1 \<Longrightarrow> var l < length (fst pn) \<Longrightarrow> var l < length (snd pn) \<Longrightarrow>
   seen (note_literal a l pn) l"
  by (simp add: seen_def note_literal_def)

lemma seen_fold_note_literal:
  "l \<in> set ls \<Longrightarrow> a ! var l = - 1 \<Longrightarrow> var l < length (fst pn) \<Longrightarrow> var l < length (snd pn) \<Longrightarrow>
   seen (fold (note_literal a) ls pn) l"
proof (induction ls arbitrary: pn)
  case Nil
  then show ?case by simp
next
  case (Cons x ls)
  have g: "grows pn (note_literal a x pn)" by (rule grows_note_literal)
  then have len: "var l < length (fst (note_literal a x pn))" "var l < length (snd (note_literal a x pn))"
    using Cons.prems(3,4) by (simp_all add: grows_def)
  show ?case
  proof (cases "l \<in> set ls")
    case True
    from Cons.IH [OF True Cons.prems(2) len] show ?thesis by simp
  next
    case False
    with Cons.prems(1) have "x = l" by simp
    then have "seen (note_literal a x pn) l"
      using Cons.prems by (simp add: seen_note_literal)
    from grows_seen [OF grows_fold_note_literal len this] show ?thesis by simp
  qed
qed

lemma seen_fold_note_clause:
  "c \<in> set cs \<Longrightarrow> \<not> satisfied c \<Longrightarrow> l \<in> set (literals c) \<Longrightarrow> a ! var l = - 1 \<Longrightarrow>
   var l < length (fst pn) \<Longrightarrow> var l < length (snd pn) \<Longrightarrow>
   seen (fold (note_clause a) cs pn) l"
proof (induction cs arbitrary: pn)
  case Nil
  then show ?case by simp
next
  case (Cons x cs)
  have g: "grows pn (note_clause a x pn)" by (rule grows_note_clause)
  then have len: "var l < length (fst (note_clause a x pn))" "var l < length (snd (note_clause a x pn))"
    using Cons.prems(5,6) by (simp_all add: grows_def)
  show ?case
  proof (cases "c \<in> set cs")
    case True
    from Cons.IH [OF True Cons.prems(2,3,4) len] show ?thesis by simp
  next
    case False
    with Cons.prems(1) have "x = c" by simp
    then have "seen (note_clause a x pn) l"
      using Cons.prems by (simp add: note_clause_def seen_fold_note_literal)
    from grows_seen [OF grows_fold_note_clause len this] show ?thesis by simp
  qed
qed

lemma seen_polarity_units:
  assumes "i < length (clauses (formula s))" "\<not> satisfied (clause_at s i)"
    "l \<in> set (literals (clause_at s i))" "assignments s ! var l = - 1" "var l \<le> numVars (formula s)"
  shows "seen (polarity_units s) l"
  unfolding polarity_units_def
  using assms by (intro seen_fold_note_clause [of "clause_at s i"]) (simp_all add: clause_at_def)

lemma purify_var_inv:
  assumes "pure_inv b pn sp" and "v \<le> numVars (formula b)"
  shows "pure_inv b pn (purify_var pn v sp)"
proof (cases "assignments (fst sp) ! v = - 1 \<and>
    ((fst pn ! v \<and> \<not> snd pn ! v) \<or> (\<not> fst pn ! v \<and> snd pn ! v))")
  case False
  then have "purify_var pn v sp = sp"
    by (auto simp: purify_var_def Let_def)
  with assms show ?thesis by simp
next
  case True
  define x :: int where "x = (if fst pn ! v \<and> \<not> snd pn ! v then 1 else 0)"
  let ?st = "fst sp"
  let ?st' = "apply_op (Assign v x) ?st"
  have eq: "purify_var pn v sp = (?st', (snd sp)[v := True])"
    using True by (auto simp: purify_var_def Let_def x_def)
  have r: "reach b ?st" and i: "inv ?st" using assms(1) by (simp_all add: pure_inv_def)
  have un: "assignments ?st ! v = - 1" using True by simp
  have r': "reach b ?st'" using r un by (intro reach_op) simp_all
  have i': "inv ?st'" using i un by (rule inv_assign) (simp add: x_def)
  have n: "numVars (formula ?st) = numVars (formula b)"
    using reach_literals [OF r] by simp
  have vl: "v < length (assignments ?st)"
    using i assms(2) n by (simp add: inv_def wf_state_def)
  have a': "assignments ?st' = (assignments ?st)[v := x]"
    by (simp add: frame)
  have bv: "assignments b ! v = - 1"
    using assms(1) un unfolding pure_inv_def by metis
  have keep: "assignments ?st' ! w = assignments b ! w" if "assignments b ! w \<noteq> - 1" for w
  proof -
    from that bv have "w \<noteq> v" by auto
    moreover from that assms(1) have "assignments ?st ! w = assignments b ! w"
      by (simp add: pure_inv_def)
    ultimately show ?thesis by (simp add: frame)
  qed
  have marks: "assignments b ! w = - 1 \<and>
         ((fst pn ! w \<and> \<not> snd pn ! w \<and> assignments ?st' ! w = 1) \<or>
          (\<not> fst pn ! w \<and> snd pn ! w \<and> assignments ?st' ! w = 0))"
    if w: "w \<le> numVars (formula b)" "(snd sp)[v := True] ! w" for w
  proof (cases "w = v")
    case True
    with \<open>assignments ?st ! v = - 1 \<and> _\<close> bv vl show ?thesis
      by (auto simp: frame x_def)
  next
    case False
    with w have "snd sp ! w" by simp
    with assms(1) w(1) False show ?thesis
      by (simp add: frame pure_inv_def)
  qed
  show ?thesis
    unfolding eq pure_inv_def using r' i' keep marks assms(1)
    by (simp add: pure_inv_def)
qed

lemma fold_purify_var_inv:
  "pure_inv b pn sp \<Longrightarrow> \<forall>v \<in> set vs. v \<le> numVars (formula b) \<Longrightarrow>
   pure_inv b pn (fold (purify_var pn) vs sp)"
  by (induction vs arbitrary: sp) (simp_all add: purify_var_inv)

lemma replicate_False_nth: "w \<le> n \<Longrightarrow> (False # replicate n False) ! w = False"
  by (cases w) simp_all

lemma assign_pure_inv:
  assumes "inv s"
  shows "pure_inv s (polarity_units s) (assign_pure s)"
  unfolding assign_pure_def
proof (rule fold_purify_var_inv)
  show "pure_inv s (polarity_units s) (s, replicate (numVars (formula s) + 1) False)"
    using assms by (simp add: pure_inv_def replicate_False_nth reach_refl)
  show "\<forall>v \<in> set [1..<numVars (formula s) + 1]. v \<le> numVars (formula s)"
    by auto
qed

lemma frame_pure_mark_step [frame]:
  "assignments (pure_mark_step lp i s) = assignments s"
  "literals (clause_at (pure_mark_step lp i s) j) = literals (clause_at s j)"
  by (simp_all add: pure_mark_step_def frame)

lemma fold_pure_mark_step_inv:
  "inv s \<Longrightarrow>
   \<forall>i \<in> set is. list_ex (\<lambda>l. lp ! var l) (literals (clause_at s i)) \<longrightarrow>
      list_ex (lit_true (assignments s)) (literals (clause_at s i)) \<Longrightarrow>
   reach s (fold (pure_mark_step lp) is s) \<and> inv (fold (pure_mark_step lp) is s)"
proof (induction "is" arbitrary: s)
  case Nil
  then show ?case by (simp add: reach_refl)
next
  case (Cons i "is")
  have r: "reach s (pure_mark_step lp i s)"
    using reach_step [of "Satisfy i" s] by (simp add: pure_mark_step_def reach_refl)
  have i: "inv (pure_mark_step lp i s)"
    using Cons.prems inv_satisfy [of s i] by (simp add: pure_mark_step_def)
  have "\<forall>j \<in> set is. list_ex (\<lambda>l. lp ! var l) (literals (clause_at (pure_mark_step lp i s) j)) \<longrightarrow>
      list_ex (lit_true (assignments (pure_mark_step lp i s))) (literals (clause_at (pure_mark_step lp i s) j))"
    using Cons.prems(2) by (simp add: frame)
  from Cons.IH [OF i this] r show ?case by (auto intro: reach_trans)
qed

lemma pure_literal_elimination_inv:
  assumes "inv s"
  shows "reach s (snd (pure_literal_elimination s)) \<and> inv (snd (pure_literal_elimination s))"
proof -
  let ?pn = "polarity_units s"
  let ?sp = "assign_pure s"
  let ?st = "fst ?sp" and ?lp = "snd ?sp"
  from assign_pure_inv [OF assms] have pi: "pure_inv s ?pn ?sp" .
  then have r: "reach s ?st" and i: "inv ?st" by (simp_all add: pure_inv_def)
  from reach_literals [OF r] have lits: "map literals (clauses (formula ?st)) = map literals (clauses (formula s))"
    and n: "numVars (formula ?st) = numVars (formula s)" by simp_all
  then have len: "length (clauses (formula ?st)) = length (clauses (formula s))"
    by (metis length_map)
  have "list_ex (lit_true (assignments ?st)) (literals (clause_at ?st j))"
    if j: "j < length (clauses (formula s))"
      and ex: "list_ex (\<lambda>l. ?lp ! var l) (literals (clause_at ?st j))" for j
  proof -
    have cl: "literals (clause_at ?st j) = literals (clause_at s j)"
      using literals_clause_at [OF lits j] .
    show ?thesis
    proof (cases "satisfied (clause_at s j)")
      case True
      with assms j obtain l0 where l0: "l0 \<in> set (literals (clause_at s j))" "lit_true (assignments s) l0"
        by (auto simp: inv_def flags_ok_def list_ex_iff)
      then have "assignments s ! var l0 \<noteq> - 1" by (auto simp: lit_true_def)
      with pi have "assignments ?st ! var l0 = assignments s ! var l0"
        by (simp add: pure_inv_def)
      with l0 show ?thesis by (auto simp: cl list_ex_iff lit_true_def)
    next
      case False
      from ex obtain l where l: "l \<in> set (literals (clause_at s j))" "?lp ! var l"
        by (auto simp: cl list_ex_iff)
      have wl: "wf_lit (numVars (formula s)) l" using wf_clause_lit [OF assms j l(1)] .
      then have vb: "var l \<le> numVars (formula s)" by (simp add: wf_lit_def)
      with pi l(2) have un: "assignments s ! var l = - 1"
        and val: "(fst ?pn ! var l \<and> \<not> snd ?pn ! var l \<and> assignments ?st ! var l = 1) \<or>
          (\<not> fst ?pn ! var l \<and> snd ?pn ! var l \<and> assignments ?st ! var l = 0)"
        by (simp_all add: pure_inv_def)
      from seen_polarity_units [OF j False l(1) un vb] val
      have "lit_true (assignments ?st) l"
        by (auto simp: seen_def lit_true_def split: if_splits)
      with l(1) show ?thesis by (auto simp: cl list_ex_iff)
    qed
  qed
  then have "\<forall>j \<in> set [0..<length (clauses (formula s))].
      list_ex (\<lambda>l. ?lp ! var l) (literals (clause_at ?st j)) \<longrightarrow>
      list_ex (lit_true (assignments ?st)) (literals (clause_at ?st j))"
    by simp
  from fold_pure_mark_step_inv [OF i this] r show ?thesis
    by (auto simp: pure_literal_elimination_def Let_def intro: reach_trans)
qed

subsection \<open>The driver keeps the invariant\<close>

lemma sweep_loop_inv:
  "inv s \<Longrightarrow> sweep_loop is s = (b, s') \<Longrightarrow>
   reach s s' \<and> inv s' \<and>
   (\<forall>j < length (clauses (formula s)). satisfied (clause_at s j) \<longrightarrow> satisfied (clause_at s' j)) \<and>
   (b \<longrightarrow> (\<forall>i \<in> set is. i < length (clauses (formula s)) \<longrightarrow> satisfied (clause_at s' i)))"
proof (induction "is" arbitrary: s)
  case Nil
  then show ?case by (simp add: reach_refl)
next
  case (Cons i "is")
  show ?case
  proof (cases "satisfied (clause_at s i)")
    case True
    with Cons.prems have "sweep_loop is s = (b, s')" by simp
    from Cons.IH [OF Cons.prems(1) this] True show ?thesis by auto
  next
    case unflagged: False
    show ?thesis
    proof (cases "list_ex (lit_true (assignments s)) (literals (clause_at s i))")
      case False
      with unflagged Cons.prems show ?thesis by (auto simp: reach_refl)
    next
      case True
      let ?s1 = "apply_op (Satisfy i) s"
      have r1: "reach s ?s1" by (intro reach_step) simp
      have i1: "inv ?s1" using Cons.prems(1) True by (rule inv_satisfy)
      have rec: "sweep_loop is ?s1 = (b, s')"
        using Cons.prems(2) unflagged True by simp
      have len: "length (clauses (formula ?s1)) = length (clauses (formula s))"
        by (simp add: frame)
      have mono: "satisfied (clause_at ?s1 j)"
        if "j < length (clauses (formula s))" "satisfied (clause_at s j) \<or> j = i" for j
        using that by (auto simp: frame satisfied_set_satisfied)
      from Cons.IH [OF i1 rec] r1 mono show ?thesis
        unfolding len by (auto intro: reach_trans)
    qed
  qed
qed

lemma sweep_inv:
  assumes "inv s" and "sweep s = (b, s')"
  shows "reach s s' \<and> inv s' \<and> (b \<longrightarrow> (\<forall>i < length (clauses (formula s')). satisfied (clause_at s' i)))"
proof -
  from assms(2) have sl: "sweep_loop [0..<length (clauses (formula s))] s = (b, s')"
    by (simp add: sweep_def)
  from sweep_loop_inv [OF assms(1) sl] have r: "reach s s'" by simp
  from reach_literals [OF r] have "length (clauses (formula s')) = length (clauses (formula s))"
    by (metis length_map)
  with sweep_loop_inv [OF assms(1) sl] show ?thesis by auto
qed

lemma frame_satisfy_step [frame]:
  "assignments (satisfy_step i s) = assignments s"
  by (simp add: satisfy_step_def frame)

lemma fold_satisfy_step_inv:
  "inv s \<Longrightarrow> reach s (fold satisfy_step is s) \<and> inv (fold satisfy_step is s) \<and>
     assignments (fold satisfy_step is s) = assignments s"
proof (induction "is" arbitrary: s)
  case Nil
  then show ?case by (simp add: reach_refl)
next
  case (Cons i "is")
  have r: "reach s (satisfy_step i s)"
    using reach_step [of "Satisfy i" s] by (simp add: satisfy_step_def reach_refl)
  have i: "inv (satisfy_step i s)"
    using Cons.prems inv_satisfy [of s i] by (simp add: satisfy_step_def)
  from Cons.IH [OF i] r show ?case by (auto intro: reach_trans simp: frame)
qed

lemma decide_inv:
  assumes "inv s" and "assignments s ! x = - 1" and "v = 0 \<or> v = 1"
  shows "reach s (decide x v s) \<and> inv (decide x v s)"
proof -
  let ?s1 = "apply_op (Assign x v) s"
  have "reach s ?s1" using assms(2) by (intro reach_step) simp
  moreover have "inv ?s1" using assms by (rule inv_assign)
  ultimately show ?thesis
    using fold_satisfy_step_inv [of ?s1 "[0..<length (clauses (formula ?s1))]"]
    by (auto simp: decide_def satisfy_clauses_after_assignment_def intro: reach_trans)
qed

lemma pick_loop_Some: "pick_loop a vs = Some x \<Longrightarrow> a ! x = - 1 \<and> x \<in> set vs \<and> x \<noteq> 0"
  by (induction vs) (auto split: if_splits)

lemma pick_unassigned: "pick_unassigned_variable vs s = Some x \<Longrightarrow> assignments s ! x = - 1"
  by (auto simp: pick_unassigned_variable_def dest: pick_loop_Some)

lemma poll_jump: "rewound s (s\<lparr>polls := k\<rparr>)"
  by (simp add: rewound_def)

lemma dpll_inv_aux:
  assumes "dpll tmo vs d st0 = Some r"
  shows "inv st0 \<longrightarrow> reach st0 (snd r) \<and> inv (snd r) \<and> (fst r = SAT \<longrightarrow> all_flagged (snd r))"
proof (rule dpll.raw_induct
    [where P = "\<lambda>tmo vs d st0 r. inv st0 \<longrightarrow> reach st0 (snd r) \<and> inv (snd r) \<and> (fst r = SAT \<longrightarrow> all_flagged (snd r))",
      OF _ assms], goal_cases)
  case (1 rec tmo vs d st0 r)
  note IH = 1(1) and body = 1(2)
  show ?case
  proof (intro impI)
    assume i0: "inv st0"
    let ?st = "st0\<lparr>polls := polls st0 + 1\<rparr>"
    have rst: "reach st0 ?st"
      by (rule reach_jump [OF reach_refl poll_jump]) simp
    have ist: "inv ?st" using i0 poll_jump by (rule inv_rewound)
    show "reach st0 (snd r) \<and> inv (snd r) \<and> (fst r = SAT \<longrightarrow> all_flagged (snd r))"
    proof (cases "tmo (polls st0)")
      case True
      with body have "r = (TIMEOUT, ?st)" by (simp add: Let_def)
      with rst ist show ?thesis by simp
    next
      case notmo: False
      from body notmo obtain ok1 st1 where up: "unit_propagate_2watchlit ?st = Some (ok1, st1)"
        by (cases "unit_propagate_2watchlit ?st") (auto simp: Let_def)
      from unit_propagate_inv [OF up ist] have r1: "reach ?st st1" and i1: "inv st1" by simp_all
      show ?thesis
      proof (cases ok1)
        case False
        from undo_to_checkpoint_reach [OF r1] obtain t where
          t: "undo_to_checkpoint (length (stack ?st)) st1 = Some t" "rewound ?st t" "stack t = stack ?st"
          by blast
        from body notmo up False t(1) have "r = (UNSAT, t)" by (simp add: Let_def)
        moreover have "reach st0 t" using rst t(2,3) by (rule reach_jump)
        moreover have "inv t" using ist t(2) by (rule inv_rewound)
        ultimately show ?thesis by simp
      next
        case ok1: True
        obtain ok2 st2 where pe: "pure_literal_elimination st1 = (ok2, st2)"
          by (cases "pure_literal_elimination st1") auto
        then have ok2: "ok2" by (simp add: pure_literal_elimination_def Let_def)
        from pure_literal_elimination_inv [OF i1] pe have r2: "reach st1 st2" and i2: "inv st2"
          by simp_all
        obtain all st3 where sw: "sweep st2 = (all, st3)"
          by (cases "sweep st2") auto
        from sweep_inv [OF i2 sw] have r3: "reach st2 st3" and i3: "inv st3"
          and fl: "all \<longrightarrow> all_flagged st3" by (simp_all add: all_flagged_def)
        have r03: "reach st0 st3" using rst r1 r2 r3 by (blast intro: reach_trans)
        show ?thesis
        proof (cases all)
          case True
          with body notmo up ok1 pe ok2 sw have "r = (SAT, st3)" by (simp add: Let_def)
          with r03 i3 fl True show ?thesis by simp
        next
          case notall: False
          show ?thesis
          proof (cases "pick_unassigned_variable vs st3")
            case None
            with body notmo up ok1 pe ok2 sw notall have "r = (UNSAT, st3)" by (simp add: Let_def)
            with r03 i3 show ?thesis by simp
          next
            case (Some x)
            from pick_unassigned [OF Some] have ux: "assignments st3 ! x = - 1" .
            from decide_inv [OF i3 ux] have rd0: "reach st3 (decide x 0 st3)" and id0: "inv (decide x 0 st3)"
              by simp_all
            from body notmo up ok1 pe ok2 sw notall Some
            obtain result1 st4 where c1: "rec tmo vs (d + 1) (decide x 0 st3) = Some (result1, st4)"
              by (cases "rec tmo vs (d + 1) (decide x 0 st3)") (auto simp: Let_def)
            from IH [OF c1] id0 have r4: "reach (decide x 0 st3) st4" and i4: "inv st4"
              and f4: "result1 = SAT \<longrightarrow> all_flagged st4" by simp_all
            have r34: "reach st3 st4" using rd0 r4 by (rule reach_trans)
            show ?thesis
            proof (cases "result1 = UNSAT")
              case False
              with body notmo up ok1 pe ok2 sw notall Some c1 have "r = (result1, st4)"
                by (simp add: Let_def)
              with r03 r34 i4 f4 show ?thesis by (auto intro: reach_trans)
            next
              case u1: True
              from undo_to_checkpoint_reach [OF r34] obtain st5 where
                t5: "undo_to_checkpoint (length (stack st3)) st4 = Some st5" "rewound st3 st5"
                  "stack st5 = stack st3"
                by blast
              have r05: "reach st0 st5" using r03 t5(2,3) by (rule reach_jump)
              have i5: "inv st5" using i3 t5(2) by (rule inv_rewound)
              have ux5: "assignments st5 ! x = - 1" using ux t5(2) by (simp add: rewound_def)
              from decide_inv [OF i5 ux5] have rd1: "reach st5 (decide x 1 st5)" and id1: "inv (decide x 1 st5)"
                by simp_all
              from body notmo up ok1 pe ok2 sw notall Some c1 u1 t5(1)
              obtain result2 st6 where c2: "rec tmo vs (d + 1) (decide x 1 st5) = Some (result2, st6)"
                by (cases "rec tmo vs (d + 1) (decide x 1 st5)") (auto simp: Let_def)
              from IH [OF c2] id1 have r6: "reach (decide x 1 st5) st6" and i6: "inv st6"
                and f6: "result2 = SAT \<longrightarrow> all_flagged st6" by simp_all
              have r06: "reach st0 st6" using r05 rd1 r6 by (blast intro: reach_trans)
              show ?thesis
              proof (cases "result2 = UNSAT")
                case False
                with body notmo up ok1 pe ok2 sw notall Some c1 u1 t5(1) c2 have "r = (result2, st6)"
                  by (simp add: Let_def)
                with r06 i6 f6 show ?thesis by simp
              next
                case u2: True
                have "reach ?st st6"
                proof -
                  have "reach ?st st3" using r1 r2 r3 by (blast intro: reach_trans)
                  then have "reach ?st st5" using t5(2,3) by (rule reach_jump)
                  with rd1 r6 show ?thesis by (blast intro: reach_trans)
                qed
                from undo_to_checkpoint_reach [OF this] obtain st7 where
                  t7: "undo_to_checkpoint (length (stack ?st)) st6 = Some st7" "rewound ?st st7"
                    "stack st7 = stack ?st"
                  by blast
                from body notmo up ok1 pe ok2 sw notall Some c1 u1 t5(1) c2 u2 t7(1)
                have "r = (UNSAT, st7)" by (simp add: Let_def)
                moreover have "reach st0 st7" using rst t7(2,3) by (rule reach_jump)
                moreover have "inv st7" using ist t7(2) by (rule inv_rewound)
                ultimately show ?thesis by simp
              qed
            qed
          qed
        qed
      qed
    qed
  qed
qed

section \<open>Soundness of the SAT verdict\<close>

lemma parsed_remove_supersets: "parsed f \<Longrightarrow> parsed (remove_supersets f)"
  by (auto simp: parsed_def remove_supersets_def Let_def list_all_iff)

lemma length_watch_clause [simp]: "length (watch_clause n i c wl) = length wl"
  by (simp add: watch_clause_def Let_def split: list.splits)

lemma watch_clause_set:
  assumes "d \<in> set (watch_clause n i c wl ! k)" "k < length wl"
  shows "d \<in> set (wl ! k) \<or> (d = i \<and> (\<exists>l \<in> set (literals c). watchlist_index l n = k))"
proof (cases "literals c")
  case Nil
  with assms show ?thesis by (simp add: watch_clause_def)
next
  case (Cons l0 ls)
  show ?thesis
  proof (cases ls)
    case Nil
    with Cons assms show ?thesis
      by (cases "k = watchlist_index l0 n") (auto simp: watch_clause_def nth_list_update)
  next
    case (Cons l1 ls')
    with \<open>literals c = l0 # ls\<close> assms show ?thesis
      by (cases "k = watchlist_index l0 n"; cases "k = watchlist_index l1 n")
         (auto simp: watch_clause_def Let_def nth_list_update)
  qed
qed

lemma fold_watch_clause:
  assumes "\<forall>k < length wl. \<forall>d \<in> set (wl ! k). d < m \<and> (\<exists>l \<in> set (literals (cs ! d)). watchlist_index l n = k)"
    and "\<forall>i \<in> set is. i < m"
  shows "\<forall>k < length wl. \<forall>d \<in> set (fold (\<lambda>i. watch_clause n i (cs ! i)) is wl ! k).
           d < m \<and> (\<exists>l \<in> set (literals (cs ! d)). watchlist_index l n = k)"
  using assms
proof (induction "is" arbitrary: wl)
  case Nil
  then show ?case by simp
next
  case (Cons i "is")
  have "\<forall>k < length (watch_clause n i (cs ! i) wl). \<forall>d \<in> set (watch_clause n i (cs ! i) wl ! k).
      d < m \<and> (\<exists>l \<in> set (literals (cs ! d)). watchlist_index l n = k)"
    using Cons.prems watch_clause_set [of _ n i "cs ! i" wl] by fastforce
  from Cons.IH [OF this] Cons.prems(2) show ?case by simp
qed

lemma length_fold_watch_clause [simp]:
  "length (fold (\<lambda>i. watch_clause n i (cs ! i)) is wl) = length wl"
  by (induction "is" arbitrary: wl) simp_all

lemma inv_initial_state:
  assumes "parsed f"
  shows "inv (initial_state a0 f)"
proof -
  have "wf_state (initial_state a0 f)"
    using assms
    by (simp add: wf_state_def initial_state_def init_watch_table_def init_empty_watch_table_def
        parsed_def wf_formula_def list_all_iff)
  moreover have "flags_ok (initial_state a0 f)"
    using assms by (simp add: flags_ok_def initial_state_def parsed_def list_all_iff clause_at_def)
  moreover have "vals_ok (initial_state a0 f)"
    unfolding vals_ok_def
  proof (intro allI impI)
    fix v assume "1 \<le> v \<and> v \<le> numVars (formula (initial_state a0 f))"
    then obtain w where "v = Suc w" "w < numVars f"
      by (cases v) (auto simp: initial_state_def)
    then show "assignments (initial_state a0 f) ! v = - 1 \<or>
        assignments (initial_state a0 f) ! v = 0 \<or> assignments (initial_state a0 f) ! v = 1"
      by (simp add: initial_state_def)
  qed
  moreover have "watch_ok (initial_state a0 f)"
  proof -
    have e: "init_empty_watch_table f ! k = []" if "k < length (init_empty_watch_table f)" for k
      using that unfolding init_empty_watch_table_def by (metis length_replicate nth_replicate)
    have "\<forall>k < length (init_empty_watch_table f). \<forall>d \<in> set (init_empty_watch_table f ! k).
        d < length (clauses f) \<and>
        (\<exists>l \<in> set (literals (clauses f ! d)). watchlist_index l (numVars f) = k)"
      using e by simp
    moreover have "\<forall>i \<in> set [0..<length (clauses f)]. i < length (clauses f)"
      by simp
    ultimately have "\<forall>k < length (init_empty_watch_table f).
        \<forall>d \<in> set (fold (\<lambda>i. watch_clause (numVars f) i (clauses f ! i))
                     [0..<length (clauses f)] (init_empty_watch_table f) ! k).
          d < length (clauses f) \<and>
          (\<exists>l \<in> set (literals (clauses f ! d)). watchlist_index l (numVars f) = k)"
      by (rule fold_watch_clause)
    then show ?thesis
      by (simp add: watch_ok_def initial_state_def init_watch_table_def clause_at_def)
  qed
  ultimately show ?thesis by (simp add: inv_def)
qed

lemma clause_subset_true:
  assumes "clause_subset c c'" "list_ex (lit_true a) (literals c)"
    and "list_all (\<lambda>l. 0 < var l) (literals c)" "list_all (\<lambda>l. 0 < var l) (literals c')"
  shows "list_ex (lit_true a) (literals c')"
proof -
  from assms(2) obtain l where l: "l \<in> set (literals c)" "lit_true a l"
    by (auto simp: list_ex_iff)
  with assms(1) obtain l' where l': "l' \<in> set (literals c')" "lit_key l' = lit_key l"
    by (auto simp: clause_subset_def list_all_iff)
  from l l' assms(3,4) have "var l' = var l \<and> neg l' = neg l"
    using lit_key_inj [of l' l] by (auto simp: list_all_iff)
  with l(2) have "lit_true a l'" by (simp add: lit_true_def)
  with l'(1) show ?thesis by (auto simp: list_ex_iff)
qed

lemma all_flagged_true:
  assumes "inv s" "all_flagged s" "c \<in> set (clauses (formula s))"
  shows "list_ex (lit_true (assignments s)) (literals c)"
  using assms
  by (auto simp: inv_def flags_ok_def all_flagged_def in_set_conv_nth clause_at_def)

text \<open>A SAT verdict of \<open>solve\<close> leaves a true literal in every clause of the parsed
  formula.\<close>

lemma solve_SAT_true:
  assumes "parsed f" and "solve qs a0 tmo f = Some (SAT, st)"
  shows "list_all (\<lambda>c. list_ex (lit_true (assignments st)) (literals c)) (clauses f)"
proof -
  let ?g = "remove_supersets f"
  let ?s0 = "initial_state a0 ?g"
  from assms(2) have run: "dpll tmo (var_order qs ?g) 0 ?s0 = Some (SAT, st)"
    by (simp add: solve_def Let_def)
  have i0: "inv ?s0" using parsed_remove_supersets [OF assms(1)] by (rule inv_initial_state)
  from dpll_inv_aux [OF run] i0 have r: "reach ?s0 st" and i: "inv st" and fl: "all_flagged st"
    by simp_all
  from reach_literals [OF r] have lits: "map literals (clauses (formula st)) = map literals (clauses ?g)"
    by (simp add: initial_state_def)
  have kept: "list_ex (lit_true (assignments st)) (literals c)" if "c \<in> set (clauses ?g)" for c
  proof -
    from that have "literals c \<in> set (map literals (clauses (formula st)))"
      unfolding lits by simp
    then obtain c' where "c' \<in> set (clauses (formula st))" "literals c' = literals c"
      by auto
    with all_flagged_true [OF i fl] show ?thesis by metis
  qed
  let ?cs = "clauses f" and ?m = "remove_marks (clauses f)"
  have ok: "marks_ok ?cs ?m" by (rule remove_marks_ok)
  have pos: "list_all (\<lambda>l. 0 < var l) (literals (?cs ! j))" if "j < length ?cs" for j
    using assms(1) nth_mem [OF that] by (fastforce simp: parsed_def list_all_iff wf_lit_def)
  have keptj: "list_ex (lit_true (assignments st)) (literals (?cs ! j))"
    if "j < length ?cs" "\<not> ?m ! j" for j
    using that by (intro kept) (auto simp: clauses_remove_supersets)
  have "list_ex (lit_true (assignments st)) (literals (?cs ! j))" if j: "j < length ?cs" for j
  proof (cases "?m ! j")
    case False
    with j show ?thesis by (rule keptj)
  next
    case True
    with ok j obtain k where k: "k < length ?cs" "\<not> ?m ! k" "clause_subset (?cs ! k) (?cs ! j)"
      by (auto simp: marks_ok_def)
    from clause_subset_true [OF k(3) keptj [OF k(1,2)] pos [OF k(1)] pos [OF j]]
    show ?thesis .
  qed
  then show ?thesis
    by (auto simp: list_all_iff in_set_conv_nth)
qed

text \<open>
  C1. For a parsed formula (no flag set, every literal on a variable from 1 to
  \<open>numVars\<close>), whatever the library's sort and the clock do: when the solver returns
  SAT, every clause of the parsed formula, the clauses that \<open>remove_supersets\<close>
  dropped included, holds a literal that the assignment array makes true at that
  moment.
\<close>

theorem C1_soundness:
  assumes "parsed f" and "solve qs a0 tmo f = Some (SAT, st)"
  shows "list_all (\<lambda>c. list_ex (lit_true (assignments st)) (literals c)) (clauses f)"
  using assms by (rule solve_SAT_true)

text \<open>The theorem on \<open>1\<close>, \<open>1 \<or> 2\<close>, \<open>\<not>1 \<or> 2\<close>, where the second clause is
  dropped by the subsumption pass.\<close>

theorem C1_witness:
  "parsed (cnf 2 [[1], [1, 2], [-1, 2]]) \<and>
   (\<exists>st. solve stable_qsort 0 never (cnf 2 [[1], [1, 2], [-1, 2]]) = Some (SAT, st) \<and>
      list_all (\<lambda>c. list_ex (lit_true (assignments st)) (literals c))
        (clauses (cnf 2 [[1], [1, 2], [-1, 2]])))"
proof -
  have p: "parsed (cnf 2 [[1], [1, 2], [-1, 2]])"
    by code_simp
  have "map_option fst (solve stable_qsort 0 never (cnf 2 [[1], [1, 2], [-1, 2]])) = Some SAT"
    by code_simp
  then obtain st where s: "solve stable_qsort 0 never (cnf 2 [[1], [1, 2], [-1, 2]]) = Some (SAT, st)"
    by (cases "solve stable_qsort 0 never (cnf 2 [[1], [1, 2], [-1, 2]])") auto
  from p s C1_soundness [OF p s] show ?thesis by blast
qed

section \<open>The watched-literal invariant\<close>

lemma count_list_mset: "mset xs = mset ys \<Longrightarrow> count_list xs c = count_list ys c"
  by (metis count_mset)

lemma two_watched_same_watch:
  assumes "two_watched s" "same_watch s t"
  shows "two_watched t"
proof -
  from assms(2) have nv: "numVars (formula t) = numVars (formula s)"
    and lits: "map literals (clauses (formula t)) = map literals (clauses (formula s))"
    and w: "map mset (watch_lists t) = map mset (watch_lists s)"
    by (simp_all add: same_watch_def)
  from lits have len: "length (clauses (formula t)) = length (clauses (formula s))"
    by (metis length_map)
  from w have wlen: "length (watch_lists t) = length (watch_lists s)"
    by (metis length_map)
  have cnt: "count_list (watch_lists t ! k) c = count_list (watch_lists s ! k) c"
    if "k < length (watch_lists s)" for k c
    using map_mset_nth [OF w that] by (rule count_list_mset)
  show ?thesis
    unfolding two_watched_def
  proof (intro allI impI)
    fix c assume c: "c < length (clauses (formula t))"
    with len have c': "c < length (clauses (formula s))" by simp
    with assms(1) obtain ls where ls: "set ls \<subseteq> set (literals (clause_at s c))"
        "distinct (map (\<lambda>l. watchlist_index l (numVars (formula s))) ls)"
        "length ls = min 2 (length (literals (clause_at s c)))" "registered s c ls"
      unfolding two_watched_def by blast
    have cl: "literals (clause_at t c) = literals (clause_at s c)"
      using literals_clause_at [OF lits c'] .
    have "registered t c ls"
      using ls(4) cnt wlen by (simp add: registered_def nv)
    with ls cl nv show "\<exists>ls. set ls \<subseteq> set (literals (clause_at t c)) \<and>
             distinct (map (\<lambda>l. watchlist_index l (numVars (formula t))) ls) \<and>
             length ls = min 2 (length (literals (clause_at t c))) \<and> registered t c ls"
      by auto
  qed
qed

lemma same_watch_rewound: "rewound s t \<Longrightarrow> same_watch s t"
  by (simp add: rewound_def same_watch_def)

lemma same_watch_refl [simp]: "same_watch s s"
  by (simp add: same_watch_def)

lemma same_watch_trans: "same_watch s t \<Longrightarrow> same_watch t u \<Longrightarrow> same_watch s u"
  by (simp add: same_watch_def)

lemma same_watch_assign: "same_watch s (apply_op (Assign v x) s)"
  by (simp add: same_watch_def frame)

lemma same_watch_satisfy: "same_watch s (apply_op (Satisfy i) s)"
  by (simp add: same_watch_def frame)

lemma same_watch_mark_clause: "same_watch s (mark_clause i s)"
  using same_watch_satisfy [of s i] by (simp add: mark_clause_def)

lemma same_watch_fold_mark: "same_watch s (fold mark_clause ws s)"
proof (induction ws arbitrary: s)
  case Nil
  show ?case by simp
next
  case (Cons c ws)
  from same_watch_trans [OF same_watch_mark_clause Cons.IH] show ?case by simp
qed

lemma same_watch_force_literal: "same_watch s (force_literal l s)"
  unfolding force_literal_def Let_def
  using same_watch_trans [OF same_watch_assign same_watch_fold_mark] by simp

lemma count_list_remove1:
  "count_list (remove1 c xs) d = (if d = c \<and> c \<in> set xs then count_list xs d - 1 else count_list xs d)"
  by (induction xs) auto

lemma count_list_snoc: "count_list (xs @ [c]) d = (if d = c then count_list xs d + 1 else count_list xs d)"
  by (induction xs) auto

lemma count_list_pos: "c \<in> set xs \<Longrightarrow> 0 < count_list xs c"
  by (induction xs) auto

lemma two_watched_relocate:
  assumes tw: "two_watched s" and k: "k < length (watch_lists s)" and c: "c \<in> set (watch_lists s ! k)"
    and cb: "c < length (clauses (formula s))"
    and ko: "ko < length (watch_lists s)" "c \<in> set (watch_lists s ! ko)" "ko \<noteq> k"
    and o: "other \<in> set (literals (clause_at s c))" "watchlist_index other (numVars (formula s)) = ko"
    and n: "nlit \<in> set (literals (clause_at s c))" "watchlist_index nlit (numVars (formula s)) = kn"
      "kn < length (watch_lists s)" "kn \<noteq> k" "kn \<noteq> ko"
  shows "two_watched (watchtable_add kn c (watchtable_remove k c s))"
proof -
  let ?idx = "\<lambda>l. watchlist_index l (numVars (formula s))"
  let ?s' = "watchtable_add kn c (watchtable_remove k c s)"
  let ?wl = "watch_lists s"
  have wl': "watch_lists ?s' = (?wl[k := remove1 c (?wl ! k)])[kn := ?wl ! kn @ [c]]"
    using n(4) by (simp add: watchtable_add_def watchtable_remove_def)
  have cnt: "count_list (watch_lists ?s' ! j) d =
      (if d = c \<and> j = k then count_list (?wl ! j) d - 1
       else if d = c \<and> j = kn then count_list (?wl ! j) d + 1
       else count_list (?wl ! j) d)" if "j < length ?wl" for j d
    using that k c n(3,4)
    by (auto simp: wl' nth_list_update count_list_remove1 count_list_snoc)
  from tw cb obtain ls where ls: "set ls \<subseteq> set (literals (clause_at s c))"
      "distinct (map ?idx ls)" "length ls = min 2 (length (literals (clause_at s c)))"
      "registered s c ls"
    unfolding two_watched_def by blast
  have in_k: "k \<in> ?idx ` set ls"
    using ls(4) k count_list_pos [OF c] unfolding registered_def by (metis less_numeral_extra(3))
  have in_ko: "ko \<in> ?idx ` set ls"
    using ls(4) ko(1) count_list_pos [OF ko(2)] unfolding registered_def by (metis less_numeral_extra(3))
  have card2: "card (?idx ` set ls) = length ls"
    using ls(2) by (metis distinct_card length_map list.set_map)
  have "length ls \<le> 2" using ls(3) by simp
  moreover have "card {k, ko} \<le> card (?idx ` set ls)"
    using in_k in_ko by (intro card_mono) auto
  ultimately have keys: "?idx ` set ls = {k, ko}" and l2: "length ls = 2"
  proof -
    have c2: "card {k, ko} = 2" using ko(3) by simp
    with \<open>card {k, ko} \<le> card (?idx ` set ls)\<close> \<open>length ls \<le> 2\<close> card2
    show "length ls = 2" by simp
    with card2 c2 in_k in_ko show "?idx ` set ls = {k, ko}"
      by (metis card_subset_eq empty_subsetI finite_imageI finite_set insert_subset)
  qed
  have regc: "registered ?s' c [nlit, other]"
    unfolding registered_def
  proof (intro allI impI)
    fix j assume "j < length (watch_lists ?s')"
    then have j: "j < length ?wl" by (simp add: frame)
    have old: "count_list (?wl ! j) c = (if j = k \<or> j = ko then 1 else 0)"
      using ls(4) j keys by (simp add: registered_def)
    show "count_list (watch_lists ?s' ! j) c =
        (if j \<in> (\<lambda>l. watchlist_index l (numVars (formula ?s'))) ` set [nlit, other] then 1 else 0)"
      using cnt [OF j, of c] old o(2) n(2,4,5) ko(3)
      by (auto simp: frame)
  qed
  show ?thesis
    unfolding two_watched_def
  proof (intro allI impI)
    fix d assume "d < length (clauses (formula ?s'))"
    then have d: "d < length (clauses (formula s))" by (simp add: frame)
    show "\<exists>ls. set ls \<subseteq> set (literals (clause_at ?s' d)) \<and>
             distinct (map (\<lambda>l. watchlist_index l (numVars (formula ?s'))) ls) \<and>
             length ls = min 2 (length (literals (clause_at ?s' d))) \<and> registered ?s' d ls"
    proof (cases "d = c")
      case True
      have "set [nlit, other] \<subseteq> set (literals (clause_at ?s' d))"
        using True o(1) n(1) by (simp add: frame)
      moreover have "distinct (map (\<lambda>l. watchlist_index l (numVars (formula ?s'))) [nlit, other])"
        using o(2) n(2,5) by (simp add: frame)
      moreover have "length [nlit, other] = min 2 (length (literals (clause_at ?s' d)))"
        using True l2 ls(3) by (simp add: frame)
      ultimately show ?thesis using regc True by blast
    next
      case False
      from tw d obtain ms where ms: "set ms \<subseteq> set (literals (clause_at s d))"
          "distinct (map ?idx ms)" "length ms = min 2 (length (literals (clause_at s d)))"
          "registered s d ms"
        unfolding two_watched_def by blast
      have "registered ?s' d ms"
        using ms(4) cnt False by (simp add: registered_def frame)
      with ms show ?thesis by (auto simp: frame)
    qed
  qed
qed

lemma visit_clause_two_watched:
  assumes "inv s" and "two_watched s" and "index < length (watch_lists s)"
    and "indexi \<in> set (watch_lists s ! index)"
    and "wf_lit (numVars (formula s)) oplit" and "index = watchlist_index oplit (numVars (formula s))"
    and "visit_clause index oplit indexi s q = (ok, s', q')"
  shows "two_watched s'"
proof -
  let ?n = "numVars (formula s)"
  let ?c = "clause_at s indexi"
  let ?other = "find_other (watch_lists s) ?n oplit indexi (literals ?c)"
  have cb: "indexi < length (clauses (formula s))"
    using assms(1,3,4) by (auto simp: inv_def watch_ok_def)
  show ?thesis
  proof (cases "satisfied ?c \<or> var ?other = 0 \<or> lit_true (assignments s) ?other")
    case True
    with assms(7) have "s' = s"
      by (auto simp: visit_clause_def Let_def split: if_splits)
    with assms(2) show ?thesis by simp
  next
    case False
    then have unflagged: "\<not> satisfied ?c" and other: "var ?other \<noteq> 0"
      and nottrue: "\<not> lit_true (assignments s) ?other" by simp_all
    from find_other_result [OF refl other]
    have o: "?other \<in> set (literals ?c)"
      "indexi \<in> set (watch_lists s ! watchlist_index ?other ?n)"
      "\<not> (var ?other = var oplit \<and> neg ?other = neg oplit)" by simp_all
    have wo: "wf_lit ?n ?other" using wf_clause_lit [OF assms(1) cb o(1)] .
    show ?thesis
    proof (cases "find_replacement (assignments s) ?n index ?other (literals ?c)")
      case None
      show ?thesis
      proof (cases "assignments s ! var ?other = - 1")
        case True
        then have "s' = force_literal ?other s"
          using assms(7) unflagged other nottrue None by (simp add: visit_clause_def Let_def)
        with two_watched_same_watch [OF assms(2) same_watch_force_literal] show ?thesis by simp
      next
        case False
        then have "s' = s"
          using assms(7) unflagged other nottrue None by (simp add: visit_clause_def Let_def)
        with assms(2) show ?thesis by simp
      qed
    next
      case (Some nlit)
      from find_replacement_result [OF Some]
      have nl: "nlit \<in> set (literals ?c)" "watchlist_index nlit ?n \<noteq> index"
        "\<not> (var nlit = var ?other \<and> neg nlit = neg ?other)" by simp_all
      have wn: "wf_lit ?n nlit" using wf_clause_lit [OF assms(1) cb nl(1)] .
      have res: "s' = watchtable_add (watchlist_index nlit ?n) indexi (watchtable_remove index indexi s)"
        using assms(7) unflagged other nottrue Some by (simp add: visit_clause_def Let_def)
      have ko: "watchlist_index ?other ?n \<noteq> index"
        using watchlist_index_inj [OF wo assms(5)] o(3) assms(6) by auto
      have kn: "watchlist_index nlit ?n \<noteq> watchlist_index ?other ?n"
        using watchlist_index_inj [OF wn wo] nl(3) by auto
      have bo: "watchlist_index ?other ?n < length (watch_lists s)"
        using watchlist_index_bound [OF wo] assms(1) by (simp add: inv_lengths)
      have bn: "watchlist_index nlit ?n < length (watch_lists s)"
        using watchlist_index_bound [OF wn] assms(1) by (simp add: inv_lengths)
      show ?thesis
        unfolding res
        by (rule two_watched_relocate [OF assms(2,3,4) cb bo o(2) ko o(1) refl nl(1) refl bn nl(2) kn])
    qed
  qed
qed

lemma visit_watchers_two_watched:
  "inv s \<Longrightarrow> two_watched s \<Longrightarrow> index < length (watch_lists s) \<Longrightarrow>
   wf_lit (numVars (formula s)) oplit \<Longrightarrow> index = watchlist_index oplit (numVars (formula s)) \<Longrightarrow>
   wf_queue s q \<Longrightarrow> visit_watchers index oplit i s q = (ok, s', q') \<Longrightarrow> two_watched s'"
proof (induction index oplit i s q rule: visit_watchers.induct)
  case (1 index oplit i st queue)
  show ?case
  proof (cases "i < length (watch_lists st ! index)")
    case False
    with "1.prems"(7) have "s' = st"
      by (simp add: visit_watchers.simps [of index oplit i st queue])
    with "1.prems"(2) show ?thesis by simp
  next
    case True
    obtain ok1 s1 q1 where v: "visit_clause index oplit (watch_lists st ! index ! i) st queue = (ok1, s1, q1)"
      by (cases "visit_clause index oplit (watch_lists st ! index ! i) st queue") auto
    have mem: "watch_lists st ! index ! i \<in> set (watch_lists st ! index)"
      using True by simp
    from visit_clause_inv [OF "1.prems"(1,3) mem "1.prems"(4,6) v]
    have s1: "reach st s1" "inv s1" "wf_queue s1 q1" by simp_all
    from visit_clause_two_watched [OF "1.prems"(1,2,3) mem "1.prems"(4,5) v]
    have t1: "two_watched s1" .
    show ?thesis
    proof (cases ok1)
      case False
      with True v "1.prems"(7) have "s' = s1"
        by (simp add: visit_watchers.simps [of index oplit i st queue])
      with t1 show ?thesis by simp
    next
      case ok: True
      from True v ok "1.prems"(7)
      have rec: "visit_watchers index oplit (i + 1) s1 q1 = (ok, s', q')"
        by (simp add: visit_watchers.simps [of index oplit i st queue])
      have n: "numVars (formula s1) = numVars (formula st)"
        using reach_literals [OF s1(1)] by simp
      have idx: "index < length (watch_lists s1)"
        using "1.prems"(1,3) s1(2) n by (simp add: inv_lengths)
      have wl: "wf_lit (numVars (formula s1)) oplit"
        using "1.prems"(4) n by simp
      have ix: "index = watchlist_index oplit (numVars (formula s1))"
        using "1.prems"(5) n by simp
      from "1.IH" [OF True v [symmetric] refl ok s1(2) t1 idx wl ix s1(3) rec]
      show ?thesis .
    qed
  qed
qed

lemma propagate_literal_two_watched:
  assumes "inv s" and "two_watched s" and "wf_lit (numVars (formula s)) l" and "wf_queue s q"
    and "propagate_literal l s q = (ok, s', q')"
  shows "two_watched s'"
proof -
  let ?s1 = "if assignments s ! var l = - 1 then force_literal l s else s"
  let ?oplit = "\<lparr>var = var l, neg = \<not> neg l\<rparr>"
  have s1: "reach s ?s1 \<and> inv ?s1"
    using force_literal_inv [OF assms(1) _ assms(3)] assms(1) by (simp add: reach_refl)
  have t1: "two_watched ?s1"
    using two_watched_same_watch [OF assms(2) same_watch_force_literal] assms(2) by simp
  have n: "numVars (formula ?s1) = numVars (formula s)"
    using reach_literals [of s ?s1] s1 by blast
  have wo: "wf_lit (numVars (formula ?s1)) ?oplit"
    using assms(3) unfolding n by (simp add: wf_lit_def)
  have idx: "watchlist_index ?oplit (numVars (formula ?s1)) < length (watch_lists ?s1)"
    using watchlist_index_bound [OF wo] s1 by (simp add: inv_lengths)
  have q: "wf_queue ?s1 q"
    using assms(4) n by (simp add: wf_queue_def)
  have "visit_watchers (watchlist_index ?oplit (numVars (formula ?s1))) ?oplit 0 ?s1 q = (ok, s', q')"
    using assms(5) by (simp add: propagate_literal_def Let_def)
  from visit_watchers_two_watched [OF _ t1 idx wo refl q this] s1 show ?thesis
    by blast
qed

lemma propagate_loop_two_watched_aux:
  assumes "propagate_loop s q = Some r"
  shows "inv s \<longrightarrow> two_watched s \<longrightarrow> wf_queue s q \<longrightarrow> two_watched (snd r)"
proof (rule propagate_loop.raw_induct
    [where P = "\<lambda>s q r. inv s \<longrightarrow> two_watched s \<longrightarrow> wf_queue s q \<longrightarrow> two_watched (snd r)", OF _ assms])
  fix loop :: "State \<Rightarrow> Literal list \<Rightarrow> (bool \<times> State) option" and st queue r
  assume IH: "\<And>st queue r. loop st queue = Some r \<Longrightarrow>
      inv st \<longrightarrow> two_watched st \<longrightarrow> wf_queue st queue \<longrightarrow> two_watched (snd r)"
    and body: "(case queue of [] \<Rightarrow> Some (True, st)
      | l # rest \<Rightarrow>
          (case propagate_literal l st rest of
             (ok, st', queue') \<Rightarrow> if ok then loop st' queue' else Some (False, st'))) = Some r"
  show "inv st \<longrightarrow> two_watched st \<longrightarrow> wf_queue st queue \<longrightarrow> two_watched (snd r)"
  proof (intro impI)
    assume i: "inv st" and t: "two_watched st" and w: "wf_queue st queue"
    show "two_watched (snd r)"
    proof (cases queue)
      case Nil
      with body t show ?thesis by auto
    next
      case (Cons l rest)
      obtain ok s' q' where p: "propagate_literal l st rest = (ok, s', q')"
        by (cases "propagate_literal l st rest") auto
      have wl: "wf_lit (numVars (formula st)) l" "wf_queue st rest"
        using w Cons by (simp_all add: wf_queue_def)
      from propagate_literal_inv [OF i wl p]
      have s': "reach st s'" "inv s'" "wf_queue s' q'" by simp_all
      from propagate_literal_two_watched [OF i t wl p] have t': "two_watched s'" .
      show ?thesis
      proof (cases ok)
        case True
        with body Cons p have "loop s' q' = Some r" by simp
        from IH [OF this] s' t' show ?thesis by simp
      next
        case False
        with body Cons p t' show ?thesis by auto
      qed
    qed
  qed
qed

lemma same_watch_reach_unwatched:
  "same_watch s (apply_op (Satisfy i) s)" "same_watch s (apply_op (Assign v x) s)"
  by (rule same_watch_satisfy, rule same_watch_assign)

lemma same_watch_fold_satisfy_step: "same_watch s (fold satisfy_step is s)"
proof (induction "is" arbitrary: s)
  case Nil
  show ?case by simp
next
  case (Cons i "is")
  have "same_watch s (satisfy_step i s)"
    using same_watch_satisfy [of s i] by (simp add: satisfy_step_def)
  from same_watch_trans [OF this Cons.IH] show ?case by simp
qed

lemma same_watch_decide: "same_watch s (decide x v s)"
  unfolding decide_def satisfy_clauses_after_assignment_def
  using same_watch_trans [OF same_watch_assign same_watch_fold_satisfy_step] by simp

lemma same_watch_sweep_loop: "sweep_loop is s = (b, s') \<Longrightarrow> same_watch s s'"
proof (induction "is" arbitrary: s)
  case Nil
  then show ?case by simp
next
  case (Cons i "is")
  show ?case
  proof (cases "\<not> satisfied (clause_at s i) \<and> list_ex (lit_true (assignments s)) (literals (clause_at s i))")
    case True
    with Cons.prems have "sweep_loop is (apply_op (Satisfy i) s) = (b, s')" by simp
    from same_watch_trans [OF same_watch_satisfy Cons.IH [OF this]] show ?thesis .
  next
    case False
    with Cons.prems have "s' = s \<or> sweep_loop is s = (b, s')"
      by (auto split: if_splits)
    with Cons.IH show ?thesis by auto
  qed
qed

lemma same_watch_fold_purify:
  "same_watch s (fst sp) \<Longrightarrow> same_watch s (fst (fold (purify_var pn) vs sp))"
proof (induction vs arbitrary: sp)
  case Nil
  then show ?case by simp
next
  case (Cons v vs)
  have "same_watch (fst sp) (fst (purify_var pn v sp))"
    using same_watch_assign [of "fst sp" v]
    by (auto simp: purify_var_def Let_def)
  from Cons.IH [OF same_watch_trans [OF Cons.prems this]] show ?case by simp
qed

lemma same_watch_fold_pure_mark: "same_watch s (fold (pure_mark_step lp) is s)"
proof (induction "is" arbitrary: s)
  case Nil
  show ?case by simp
next
  case (Cons i "is")
  have "same_watch s (pure_mark_step lp i s)"
    using same_watch_satisfy [of s i] by (simp add: pure_mark_step_def)
  from same_watch_trans [OF this Cons.IH] show ?case by simp
qed

lemma same_watch_pure: "same_watch s (snd (pure_literal_elimination s))"
proof -
  have "same_watch s (fst (assign_pure s))"
    unfolding assign_pure_def by (rule same_watch_fold_purify) simp
  from same_watch_trans [OF this same_watch_fold_pure_mark] show ?thesis
    by (simp add: pure_literal_elimination_def Let_def)
qed

lemma post_sweep_two_watched:
  assumes "inv st0" "two_watched st0" "post_sweep st0 = Some (b, st3)"
  shows "reach st0 st3 \<and> inv st3 \<and> two_watched st3"
proof -
  let ?st = "st0\<lparr>polls := polls st0 + 1\<rparr>"
  from assms(3) obtain st1 where up: "unit_propagate_2watchlit ?st = Some (True, st1)"
    and sw: "sweep (snd (pure_literal_elimination st1)) = (b, st3)"
    by (auto simp: post_sweep_def split: Option.bind_splits if_splits)
  have rst: "reach st0 ?st" by (rule reach_jump [OF reach_refl poll_jump]) simp
  have ist: "inv ?st" using assms(1) poll_jump by (rule inv_rewound)
  have tst: "two_watched ?st"
    using assms(2) same_watch_rewound [OF poll_jump] by (rule two_watched_same_watch)
  from unit_propagate_inv [OF up ist] have r1: "reach ?st st1" and i1: "inv st1" by simp_all
  have t1: "two_watched st1"
    using propagate_loop_two_watched_aux [of ?st "seed_queue ?st" "(True, st1)"] up ist tst
      wf_seed_queue [OF ist]
    by (simp add: unit_propagate_2watchlit_def)
  let ?st2 = "snd (pure_literal_elimination st1)"
  from pure_literal_elimination_inv [OF i1] have r2: "reach st1 ?st2" and i2: "inv ?st2" by simp_all
  have t2: "two_watched ?st2" using t1 same_watch_pure by (rule two_watched_same_watch)
  from sweep_inv [OF i2 sw] have r3: "reach ?st2 st3" and i3: "inv st3" by simp_all
  have t3: "two_watched st3"
    using t2 same_watch_sweep_loop [of _ ?st2 b st3] sw
    by (auto simp: sweep_def intro: two_watched_same_watch)
  from rst r1 r2 r3 have "reach st0 st3" by (blast intro: reach_trans)
  with i3 t3 show ?thesis by simp
qed

lemma calls_two_watched:
  "calls tmo vs d st0 s \<Longrightarrow> inv st0 \<Longrightarrow> two_watched st0 \<Longrightarrow> inv s \<and> two_watched s"
proof (induction rule: calls.induct)
  case (call_here st0 depth)
  have "inv (st0\<lparr>polls := polls st0 + 1\<rparr>)"
    using call_here.prems(1) poll_jump by (rule inv_rewound)
  moreover have "two_watched (st0\<lparr>polls := polls st0 + 1\<rparr>)"
    using call_here.prems(2) same_watch_rewound [OF poll_jump] by (rule two_watched_same_watch)
  ultimately show ?case by simp
next
  case (call_first st0 st3 x depth s)
  from post_sweep_two_watched [OF call_first.prems call_first.hyps(2)]
  have i3: "inv st3" and t3: "two_watched st3" by simp_all
  from pick_unassigned [OF call_first.hyps(3)] have ux: "assignments st3 ! x = - 1" .
  from decide_inv [OF i3 ux, of 0] have "inv (decide x 0 st3)" by simp
  moreover have "two_watched (decide x 0 st3)"
    using t3 same_watch_decide by (rule two_watched_same_watch)
  ultimately show ?case by (rule call_first.IH)
next
  case (call_second st0 st3 x depth st4 st5 s)
  from post_sweep_two_watched [OF call_second.prems call_second.hyps(2)]
  have i3: "inv st3" and t3: "two_watched st3" by simp_all
  from pick_unassigned [OF call_second.hyps(3)] have ux: "assignments st3 ! x = - 1" .
  from decide_inv [OF i3 ux, of 0] have rd: "reach st3 (decide x 0 st3)" and id: "inv (decide x 0 st3)"
    by simp_all
  from dpll_inv_aux [OF call_second.hyps(4)] id have "reach (decide x 0 st3) st4" by simp
  with rd have "reach st3 st4" by (rule reach_trans)
  from undo_to_checkpoint_reach [OF this] call_second.hyps(5)
  have rw: "rewound st3 st5" by auto
  have i5: "inv st5" using i3 rw by (rule inv_rewound)
  have t5: "two_watched st5" using t3 same_watch_rewound [OF rw] by (rule two_watched_same_watch)
  have ux5: "assignments st5 ! x = - 1" using ux rw by (simp add: rewound_def)
  from decide_inv [OF i5 ux5, of 1] have "inv (decide x 1 st5)" by simp
  moreover have "two_watched (decide x 1 st5)"
    using t5 same_watch_decide by (rule two_watched_same_watch)
  ultimately show ?case by (rule call_second.IH)
qed

lemma distinct_heads_remove_supersets: "distinct_heads f \<Longrightarrow> distinct_heads (remove_supersets f)"
  by (auto simp: distinct_heads_def remove_supersets_def Let_def list_all_iff)

lemma count_list_update_snoc:
  "k < length wl \<Longrightarrow>
   count_list (wl[j := xs @ [i]] ! k) d =
     (if k = j then count_list xs d + (if d = i then 1 else 0) else count_list (wl ! k) d)"
  by (cases "k = j") (simp_all add: count_list_snoc)

lemma watch_clause_count:
  assumes "k < length wl"
    and "list_all (\<lambda>l. watchlist_index l n < length wl) (literals c)"
    and "case literals c of l0 # l1 # ls \<Rightarrow> watchlist_index l0 n \<noteq> watchlist_index l1 n | _ \<Rightarrow> True"
  shows "count_list (watch_clause n i c wl ! k) d =
     count_list (wl ! k) d +
       (if d = i \<and> k \<in> (\<lambda>l. watchlist_index l n) ` set (take 2 (literals c)) then 1 else 0)"
proof (cases "literals c")
  case Nil
  then show ?thesis by (simp add: watch_clause_def)
next
  case (Cons l0 ls)
  show ?thesis
  proof (cases ls)
    case Nil
    with Cons assms(1) show ?thesis
      by (simp add: watch_clause_def count_list_update_snoc)
  next
    case (Cons l1 ls')
    with \<open>literals c = l0 # ls\<close> assms show ?thesis
      by (auto simp: watch_clause_def Let_def count_list_update_snoc)
  qed
qed

lemma fold_watch_clause_count:
  assumes "distinct is" and "k < length wl"
    and "\<forall>i \<in> set is. list_all (\<lambda>l. watchlist_index l n < length wl) (literals (cs ! i)) \<and>
          (case literals (cs ! i) of l0 # l1 # ls \<Rightarrow> watchlist_index l0 n \<noteq> watchlist_index l1 n
           | _ \<Rightarrow> True)"
  shows "count_list (fold (\<lambda>i. watch_clause n i (cs ! i)) is wl ! k) d =
     count_list (wl ! k) d +
       (if d \<in> set is \<and> k \<in> (\<lambda>l. watchlist_index l n) ` set (take 2 (literals (cs ! d))) then 1 else 0)"
  using assms
proof (induction "is" arbitrary: wl)
  case Nil
  then show ?case by simp
next
  case (Cons i "is")
  let ?wl = "watch_clause n i (cs ! i) wl"
  have len: "length ?wl = length wl" by simp
  have step: "count_list (?wl ! k) d =
     count_list (wl ! k) d +
       (if d = i \<and> k \<in> (\<lambda>l. watchlist_index l n) ` set (take 2 (literals (cs ! i))) then 1 else 0)"
    using Cons.prems by (intro watch_clause_count) simp_all
  have "count_list (fold (\<lambda>i. watch_clause n i (cs ! i)) is ?wl ! k) d =
     count_list (?wl ! k) d +
       (if d \<in> set is \<and> k \<in> (\<lambda>l. watchlist_index l n) ` set (take 2 (literals (cs ! d))) then 1 else 0)"
    using Cons.prems by (intro Cons.IH) (simp_all add: len)
  with step Cons.prems(1) show ?case by auto
qed

lemma two_watched_initial_state:
  assumes "parsed f" and "distinct_heads f"
  shows "two_watched (initial_state a0 f)"
  unfolding two_watched_def
proof (intro allI impI)
  let ?s = "initial_state a0 f"
  let ?idx = "\<lambda>l. watchlist_index l (numVars f)"
  fix c assume "c < length (clauses (formula ?s))"
  then have c: "c < length (clauses f)" by (simp add: initial_state_def)
  let ?ls = "take 2 (literals (clauses f ! c))"
  have wf: "wf_lit (numVars f) l" if "i < length (clauses f)" "l \<in> set (literals (clauses f ! i))" for i l
    using assms(1) that nth_mem [OF that(1)] by (fastforce simp: parsed_def list_all_iff)
  have heads: "case literals (clauses f ! i) of l0 # l1 # ls \<Rightarrow> ?idx l0 \<noteq> ?idx l1 | _ \<Rightarrow> True"
    if i: "i < length (clauses f)" for i
  proof (cases "literals (clauses f ! i)")
    case Nil
    then show ?thesis by simp
  next
    case (Cons l0 ls)
    show ?thesis
    proof (cases ls)
      case Nil
      with Cons show ?thesis by simp
    next
      case (Cons l1 ls')
      with \<open>literals (clauses f ! i) = l0 # ls\<close>
      have "\<not> (var l0 = var l1 \<and> neg l0 = neg l1)"
        using assms(2) nth_mem [OF i] by (fastforce simp: distinct_heads_def list_all_iff)
      moreover have "wf_lit (numVars f) l0" "wf_lit (numVars f) l1"
        using wf [OF i] \<open>literals (clauses f ! i) = l0 # ls\<close> Cons by simp_all
      ultimately have "?idx l0 \<noteq> ?idx l1"
        using watchlist_index_inj [of "numVars f" l0 l1] by auto
      with \<open>literals (clauses f ! i) = l0 # ls\<close> Cons show ?thesis by simp
    qed
  qed
  have pre: "\<forall>i \<in> set [0..<length (clauses f)].
      list_all (\<lambda>l. ?idx l < length (init_empty_watch_table f)) (literals (clauses f ! i)) \<and>
      (case literals (clauses f ! i) of l0 # l1 # ls \<Rightarrow> ?idx l0 \<noteq> ?idx l1 | _ \<Rightarrow> True)"
    using wf heads watchlist_index_bound [of "numVars f"]
    by (auto simp: list_all_iff init_empty_watch_table_def)
  have empty: "count_list (init_empty_watch_table f ! k) c = 0" if "k < length (init_empty_watch_table f)" for k
  proof -
    have "init_empty_watch_table f ! k = []"
      using that unfolding init_empty_watch_table_def by (metis length_replicate nth_replicate)
    then show ?thesis by simp
  qed
  have reg: "registered ?s c ?ls"
    unfolding registered_def
  proof (intro allI impI)
    fix k assume "k < length (watch_lists ?s)"
    then have k: "k < length (init_empty_watch_table f)"
      by (simp add: initial_state_def init_watch_table_def)
    from fold_watch_clause_count [OF _ k pre, of c] empty [OF k] c
    show "count_list (watch_lists ?s ! k) c =
        (if k \<in> (\<lambda>l. watchlist_index l (numVars (formula ?s))) ` set ?ls then 1 else 0)"
      by (simp add: initial_state_def init_watch_table_def)
  qed
  have "distinct (map ?idx ?ls)"
  proof (cases "literals (clauses f ! c)")
    case Nil
    then show ?thesis by simp
  next
    case (Cons l0 ls)
    with heads [OF c] show ?thesis by (cases ls) simp_all
  qed
  moreover have "set ?ls \<subseteq> set (literals (clauses f ! c))"
    by (rule set_take_subset)
  moreover have "length ?ls = min 2 (length (literals (clauses f ! c)))"
    by simp
  ultimately show "\<exists>ls. set ls \<subseteq> set (literals (clause_at ?s c)) \<and>
      distinct (map (\<lambda>l. watchlist_index l (numVars (formula ?s))) ls) \<and>
      length ls = min 2 (length (literals (clause_at ?s c))) \<and> registered ?s c ls"
    using reg by (auto simp: initial_state_def clause_at_def min.commute)
qed

text \<open>When no clause begins with the same literal twice, the registration of \<open>main\<close> and
  every relocation keep two distinct watchers: at every return of the propagator in a run every
  clause is registered exactly once under each of \<open>min 2 size\<close> literals of its own vector with
  pairwise distinct keys, and in no other watch list.\<close>

lemma two_watched_at_return:
  assumes "parsed f" and "distinct_heads f"
    and "calls tmo var_sort 0 (initial_state a0 (remove_supersets f)) st"
    and "unit_propagate_2watchlit st = Some (ok, st')"
  shows "two_watched st'"
proof -
  have "inv (initial_state a0 (remove_supersets f))"
    using parsed_remove_supersets [OF assms(1)] by (rule inv_initial_state)
  moreover have "two_watched (initial_state a0 (remove_supersets f))"
    using parsed_remove_supersets [OF assms(1)] distinct_heads_remove_supersets [OF assms(2)]
    by (rule two_watched_initial_state)
  ultimately have "inv st \<and> two_watched st"
    using calls_two_watched [OF assms(3)] by simp
  then show ?thesis
    using propagate_loop_two_watched_aux [of st "seed_queue st" "(ok, st')"] assms(4)
      wf_seed_queue [of st]
    by (simp add: unit_propagate_2watchlit_def)
qed

text \<open>
  C4 fails on the code. \<open>main\<close> registers a clause under \<open>literals[0]\<close> and
  \<open>literals[1]\<close> without comparing them. On the input \<open>p cnf 4 5\<close>, \<open>-1 2 0\<close>,
  \<open>-3 -4 2 0\<close>, \<open>-2 -2 3 0\<close>, \<open>1 0\<close>, \<open>4 0\<close> clause 2 is put twice on the list of
  \<open>\<not>2\<close> (key 6) and on no other list. The propagator of the top call returns without
  conflict, with clause 2 unflagged and still on that one list, and with variable 3
  forced false, which falsifies clause 2. The formula is satisfied by making every
  variable true, and the solver answers UNSAT.
\<close>

theorem C4_repeated_literal_registered_twice:
  "parsed (cnf 4 [[-1, 2], [-3, -4, 2], [-2, -2, 3], [1], [4]]) \<and>
   remove_supersets (cnf 4 [[-1, 2], [-3, -4, 2], [-2, -2, 3], [1], [4]])
     = cnf 4 [[-1, 2], [-3, -4, 2], [-2, -2, 3], [1], [4]] \<and>
   watch_lists (initial_state 0 (cnf 4 [[-1, 2], [-3, -4, 2], [-2, -2, 3], [1], [4]]))
     = [[], [3], [0], [], [4], [0], [2, 2], [1], [1]] \<and>
   watchers (initial_state 0 (cnf 4 [[-1, 2], [-3, -4, 2], [-2, -2, 3], [1], [4]])) 2 = [6] \<and>
   map_option fst (unit_propagate_2watchlit
       ((initial_state 0 (cnf 4 [[-1, 2], [-3, -4, 2], [-2, -2, 3], [1], [4]]))\<lparr>polls := 1\<rparr>))
     = Some True \<and>
   map_option (watch_lists \<circ> snd) (unit_propagate_2watchlit
       ((initial_state 0 (cnf 4 [[-1, 2], [-3, -4, 2], [-2, -2, 3], [1], [4]]))\<lparr>polls := 1\<rparr>))
     = Some [[], [3], [0, 1], [], [4], [0], [2, 2], [1], []] \<and>
   map_option (map satisfied \<circ> clauses \<circ> formula \<circ> snd) (unit_propagate_2watchlit
       ((initial_state 0 (cnf 4 [[-1, 2], [-3, -4, 2], [-2, -2, 3], [1], [4]]))\<lparr>polls := 1\<rparr>))
     = Some [True, True, False, True, True] \<and>
   map_option (assignments \<circ> snd) (unit_propagate_2watchlit
       ((initial_state 0 (cnf 4 [[-1, 2], [-3, -4, 2], [-2, -2, 3], [1], [4]]))\<lparr>polls := 1\<rparr>))
     = Some [0, 1, 1, 0, 1] \<and>
   list_all (clause_holds all_true) (clauses (cnf 4 [[-1, 2], [-3, -4, 2], [-2, -2, 3], [1], [4]])) \<and>
   map_option fst (solve stable_qsort 0 never (cnf 4 [[-1, 2], [-3, -4, 2], [-2, -2, 3], [1], [4]]))
     = Some UNSAT"
  by code_simp

section \<open>Termination and refutational completeness\<close>

lemma find_other_none:
  "var (find_other wl n x c ls) = 0 \<longleftrightarrow>
   (\<forall>l \<in> set ls. (var l = var x \<and> neg l = neg x) \<or> c \<notin> set (wl ! watchlist_index l n) \<or> var l = 0)"
  by (induction ls) (auto simp: no_literal_def Let_def)

lemma true_flagged_lone_ok:
  assumes "inv s" and "true_flagged s"
  shows "lone_ok s"
  unfolding lone_ok_def
proof (intro allI impI)
  fix x c
  let ?n = "numVars (formula s)"
  assume x: "wf_lit ?n x" and c: "c < length (clauses (formula s))"
    and m: "c \<in> set (watch_lists s ! watchlist_index x ?n)"
    and u: "\<not> satisfied (clause_at s c)"
  have "watchlist_index x ?n < length (watch_lists s)"
    using watchlist_index_bound [OF x] assms(1) by (simp add: inv_lengths)
  with assms(1) m obtain l where l: "l \<in> set (literals (clause_at s c))"
      "watchlist_index l ?n = watchlist_index x ?n"
    by (auto simp: inv_def watch_ok_def)
  from watchlist_index_inj [OF wf_clause_lit [OF assms(1) c l(1)] x l(2)]
  have "lit_true (assignments s) l = lit_true (assignments s) x"
    by (simp add: lit_true_def)
  moreover have "\<not> list_ex (lit_true (assignments s)) (literals (clause_at s c))"
    using assms(2) c u by (auto simp: true_flagged_def)
  ultimately show "\<not> lit_true (assignments s) x"
    using l(1) by (auto simp: list_ex_iff)
qed

lemma lone_ok_mono:
  assumes "lone_ok s"
    and "numVars (formula t) = numVars (formula s)"
    and "watch_lists t = watch_lists s"
    and "length (clauses (formula t)) = length (clauses (formula s))"
    and "\<And>c. c < length (clauses (formula s)) \<Longrightarrow> literals (clause_at t c) = literals (clause_at s c)"
    and "\<And>c. c < length (clauses (formula s)) \<Longrightarrow> satisfied (clause_at s c) \<Longrightarrow> satisfied (clause_at t c)"
    and "\<And>x c. wf_lit (numVars (formula s)) x \<Longrightarrow> lit_true (assignments t) x \<Longrightarrow>
           c < length (clauses (formula s)) \<Longrightarrow>
           c \<in> set (watch_lists s ! watchlist_index x (numVars (formula s))) \<Longrightarrow>
           lit_true (assignments s) x \<or> satisfied (clause_at t c)"
  shows "lone_ok t"
  unfolding lone_ok_def
proof (intro allI impI notI)
  fix x c
  assume x: "wf_lit (numVars (formula t)) x" and c: "c < length (clauses (formula t))"
    and m: "c \<in> set (watch_lists t ! watchlist_index x (numVars (formula t)))"
    and u: "\<not> satisfied (clause_at t c)" and so: "sole t x c"
    and tr: "lit_true (assignments t) x"
  from assms(7) [of x c] x c m u tr assms(2,3,4) have "lit_true (assignments s) x" by auto
  moreover have "sole s x c" using so c assms(2,3,4,5) by (simp add: sole_def)
  moreover have "\<not> satisfied (clause_at s c)" using u c assms(4,6) by auto
  ultimately show False
    using assms(1) x c m assms(2,3,4) by (auto simp: lone_ok_def)
qed

lemma satisfied_mark_clause:
  "j < length (clauses (formula s)) \<Longrightarrow>
   satisfied (clause_at (mark_clause i s) j) = (satisfied (clause_at s j) \<or> i = j)"
  by (auto simp: mark_clause_def frame satisfied_set_satisfied)

lemma fold_mark_clause_frame:
  "assignments (fold mark_clause ws s) = assignments s \<and>
   numVars (formula (fold mark_clause ws s)) = numVars (formula s) \<and>
   length (clauses (formula (fold mark_clause ws s))) = length (clauses (formula s)) \<and>
   (\<forall>j. literals (clause_at (fold mark_clause ws s) j) = literals (clause_at s j)) \<and>
   (\<forall>j < length (clauses (formula s)).
      satisfied (clause_at (fold mark_clause ws s) j) = (satisfied (clause_at s j) \<or> j \<in> set ws))"
proof (induction ws arbitrary: s)
  case Nil
  show ?case by simp
next
  case (Cons w ws)
  from Cons.IH [of "mark_clause w s"] show ?case
    by (auto simp: frame satisfied_mark_clause)
qed

lemma force_literal_frame:
  "assignments (force_literal l s) = (assignments s)[var l := (if neg l then 0 else 1)]"
  "numVars (formula (force_literal l s)) = numVars (formula s)"
  "length (clauses (formula (force_literal l s))) = length (clauses (formula s))"
  "literals (clause_at (force_literal l s) j) = literals (clause_at s j)"
  "j < length (clauses (formula s)) \<Longrightarrow>
     satisfied (clause_at (force_literal l s) j) =
       (satisfied (clause_at s j) \<or> j \<in> set (watch_lists s ! watchlist_index l (numVars (formula s))))"
  using fold_mark_clause_frame
    [of "watch_lists s ! watchlist_index l (numVars (formula s))"
        "push_assignment (var l) (set_assignment (var l) (if neg l then 0 else 1) s)"]
  by (simp_all add: force_literal_def Let_def frame)

lemma lone_ok_force_literal:
  assumes "inv s" and "lone_ok s" and "assignments s ! var l = - 1"
    and "wf_lit (numVars (formula s)) l"
  shows "lone_ok (force_literal l s)"
proof (rule lone_ok_mono [OF assms(2)])
  fix x c
  let ?n = "numVars (formula s)"
  assume x: "wf_lit ?n x" and tr: "lit_true (assignments (force_literal l s)) x"
    and c: "c < length (clauses (formula s))"
    and m: "c \<in> set (watch_lists s ! watchlist_index x ?n)"
  show "lit_true (assignments s) x \<or> satisfied (clause_at (force_literal l s) c)"
  proof (cases "var x = var l")
    case False
    with tr show ?thesis by (simp add: force_literal_frame lit_true_def)
  next
    case True
    have "var l < length (assignments s)"
      using assms(1,4) by (simp add: inv_def wf_state_def wf_lit_def)
    with tr True have "neg x = neg l"
      by (cases "neg l") (auto simp: force_literal_frame lit_true_def)
    with True have "watchlist_index x ?n = watchlist_index l ?n"
      by (simp add: watchlist_index_def)
    with m c show ?thesis by (simp add: force_literal_frame)
  qed
qed (simp_all add: force_literal_frame)

lemma relocate_member:
  assumes "j < length wl" and "k < length wl" and "k' < length wl" and "d \<noteq> c"
  shows "d \<in> set ((wl[k := remove1 c (wl ! k)])[k' := (wl[k := remove1 c (wl ! k)]) ! k' @ [c]] ! j)
     \<longleftrightarrow> d \<in> set (wl ! j)"
  using assms by (cases "j = k"; cases "j = k'") (auto simp: nth_list_update)

lemma relocate_keeps:
  assumes "j < length wl" and "k' < length wl" and "j \<noteq> k" and "c \<in> set (wl ! j)"
  shows "c \<in> set ((wl[k := remove1 c (wl ! k)])[k' := (wl[k := remove1 c (wl ! k)]) ! k' @ [c]] ! j)"
  using assms by (cases "j = k'") (auto simp: nth_list_update)

lemma relocate_new:
  assumes "k' < length wl"
  shows "c \<in> set ((wl[k := remove1 c (wl ! k)])[k' := (wl[k := remove1 c (wl ! k)]) ! k' @ [c]] ! k')"
  using assms by simp

lemma watch_lists_relocate:
  "watch_lists (watchtable_add k' c (watchtable_remove k c s)) =
   ((watch_lists s)[k := remove1 c (watch_lists s ! k)])
     [k' := ((watch_lists s)[k := remove1 c (watch_lists s ! k)]) ! k' @ [c]]"
  by (simp add: watchtable_add_def watchtable_remove_def)

lemma lone_ok_relocate:
  assumes "inv s" and "lone_ok s" and "index < length (watch_lists s)"
    and "indexi < length (clauses (formula s))"
    and "other \<in> set (literals (clause_at s indexi))"
    and "indexi \<in> set (watch_lists s ! watchlist_index other (numVars (formula s)))"
    and "watchlist_index other (numVars (formula s)) \<noteq> index"
    and "nlit \<in> set (literals (clause_at s indexi))"
    and "\<not> (var nlit = var other \<and> neg nlit = neg other)"
  shows "lone_ok (watchtable_add (watchlist_index nlit (numVars (formula s))) indexi
           (watchtable_remove index indexi s))"
  unfolding lone_ok_def
proof (intro allI impI notI)
  let ?n = "numVars (formula s)"
  let ?t = "watchtable_add (watchlist_index nlit ?n) indexi (watchtable_remove index indexi s)"
  let ?wl = "watch_lists s"
  fix x c
  assume x: "wf_lit (numVars (formula ?t)) x" and c: "c < length (clauses (formula ?t))"
    and m: "c \<in> set (watch_lists ?t ! watchlist_index x (numVars (formula ?t)))"
    and u: "\<not> satisfied (clause_at ?t c)" and so: "sole ?t x c"
    and tr: "lit_true (assignments ?t) x"
  have len: "length ?wl = ?n * 2 + 1" using assms(1) by (rule inv_lengths)
  have wo: "wf_lit ?n other" using wf_clause_lit [OF assms(1,4,5)] .
  have wn: "wf_lit ?n nlit" using wf_clause_lit [OF assms(1,4,8)] .
  have ko: "watchlist_index other ?n < length ?wl"
    using watchlist_index_bound [OF wo] len by simp
  have kn: "watchlist_index nlit ?n < length ?wl"
    using watchlist_index_bound [OF wn] len by simp
  have kx: "watchlist_index x ?n < length ?wl"
    using watchlist_index_bound [of ?n x] x len by (simp add: frame)
  from so have all: "\<forall>l \<in> set (literals (clause_at s c)).
      (var l = var x \<and> neg l = neg x) \<or> c \<notin> set (watch_lists ?t ! watchlist_index l ?n) \<or> var l = 0"
    by (simp add: sole_def find_other_none frame)
  show False
  proof (cases "c = indexi")
    case True
    have "indexi \<in> set (watch_lists ?t ! watchlist_index nlit ?n)"
      unfolding watch_lists_relocate using kn by (rule relocate_new)
    with all True assms(8) wn have 1: "var nlit = var x \<and> neg nlit = neg x"
      by (auto simp: wf_lit_def)
    have "indexi \<in> set (watch_lists ?t ! watchlist_index other ?n)"
      unfolding watch_lists_relocate using ko kn assms(7,6) by (rule relocate_keeps)
    with all True assms(5) wo have "var other = var x \<and> neg other = neg x"
      by (auto simp: wf_lit_def)
    with 1 assms(9) show False by simp
  next
    case False
    have mem: "c \<in> set (watch_lists ?t ! j) \<longleftrightarrow> c \<in> set (?wl ! j)" if "j < length ?wl" for j
      unfolding watch_lists_relocate using that assms(3) kn False by (rule relocate_member)
    have "sole s x c"
      unfolding sole_def find_other_none
    proof
      fix l assume l: "l \<in> set (literals (clause_at s c))"
      have "wf_lit ?n l" using wf_clause_lit [OF assms(1) _ l] c by (simp add: frame)
      then have "watchlist_index l ?n < length ?wl"
        using watchlist_index_bound [of ?n l] len by simp
      from mem [OF this] all l
      show "(var l = var x \<and> neg l = neg x) \<or> c \<notin> set (?wl ! watchlist_index l ?n) \<or> var l = 0"
        by auto
    qed
    moreover have "c \<in> set (?wl ! watchlist_index x ?n)"
      using m mem [OF kx] by (simp add: frame)
    ultimately show False
      using assms(2) x c u tr by (auto simp: lone_ok_def frame)
  qed
qed

lemma filter_le:
  "(\<And>v. v \<in> set xs \<Longrightarrow> P v \<Longrightarrow> Q v) \<Longrightarrow> length (filter P xs) \<le> length (filter Q xs)"
proof (induction xs)
  case Nil
  show ?case by simp
next
  case (Cons y ys)
  have "length (filter P ys) \<le> length (filter Q ys)"
    using Cons.prems by (intro Cons.IH) simp
  with Cons.prems [of y] show ?case by auto
qed

lemma unassigned_le:
  assumes "numVars (formula t) = numVars (formula s)"
    and "\<And>v. assignments s ! v \<noteq> - 1 \<Longrightarrow> assignments t ! v \<noteq> - 1"
  shows "unassigned t \<le> unassigned s"
proof -
  have "length (filter (\<lambda>v. assignments t ! v = - 1) xs) \<le> length (filter (\<lambda>v. assignments s ! v = - 1) xs)"
    for xs
    using assms(2) by (intro filter_le) auto
  then show ?thesis using assms(1) by (simp add: unassigned_def)
qed

lemma filter_less:
  assumes "\<And>v. v \<in> set xs \<Longrightarrow> P v \<Longrightarrow> Q v" and "x \<in> set xs" and "Q x" and "\<not> P x"
  shows "length (filter P xs) < length (filter Q xs)"
  using assms
proof (induction xs)
  case Nil
  then show ?case by simp
next
  case (Cons y ys)
  have le: "length (filter P ys) \<le> length (filter Q ys)"
    using Cons.prems(1) by (intro filter_le) simp
  show ?case
  proof (cases "x = y")
    case True
    with Cons.prems le show ?thesis by auto
  next
    case False
    with Cons.prems have "length (filter P ys) < length (filter Q ys)"
      by (intro Cons.IH) auto
    with Cons.prems(1) [of y] show ?thesis by auto
  qed
qed

lemma unassigned_assign:
  assumes "numVars (formula t) = numVars (formula s)"
    and "assignments t = (assignments s)[v := x]" and "x \<noteq> - 1"
    and "assignments s ! v = - 1" and "1 \<le> v" and "v \<le> numVars (formula s)"
    and "v < length (assignments s)"
  shows "unassigned t < unassigned s"
  unfolding unassigned_def assms(1)
proof (rule filter_less [where x = v])
  fix w assume "assignments t ! w = - 1"
  with assms(2,3,7) show "assignments s ! w = - 1"
    by (cases "w = v") auto
next
  show "v \<in> set [1..<numVars (formula s) + 1]" using assms(5,6) by (auto simp: less_Suc_eq_le)
  show "assignments s ! v = - 1" by fact
  show "assignments t ! v \<noteq> - 1" using assms(2,3,7) by simp
qed

lemma unassigned_force_literal:
  assumes "inv s" and "assignments s ! var l = - 1" and "wf_lit (numVars (formula s)) l"
  shows "unassigned (force_literal l s) < unassigned s"
proof (rule unassigned_assign)
  show "assignments (force_literal l s) = (assignments s)[var l := (if neg l then 0 else 1)]"
    by (rule force_literal_frame)
  show "var l < length (assignments s)"
    using assms(1,3) by (simp add: inv_def wf_state_def wf_lit_def)
qed (use assms in \<open>simp_all add: force_literal_frame wf_lit_def\<close>)

text \<open>One visited clause: the invariant is kept, and either a variable is assigned, or the
  assignments stay and the queue is unchanged or gets the visited literal, which is then
  not true.\<close>

lemma visit_clause_progress:
  assumes "inv s" and "lone_ok s" and "index = watchlist_index oplit (numVars (formula s))"
    and "wf_lit (numVars (formula s)) oplit" and "indexi \<in> set (watch_lists s ! index)"
    and "visit_clause index oplit indexi s q = (True, s', q')"
  shows "lone_ok s' \<and>
     (unassigned s' < unassigned s \<or>
      (assignments s' = assignments s \<and>
       (q' = q \<or> (q' = q @ [oplit] \<and> \<not> lit_true (assignments s) oplit))))"
proof -
  let ?n = "numVars (formula s)"
  let ?c = "clause_at s indexi"
  let ?other = "find_other (watch_lists s) ?n oplit indexi (literals ?c)"
  have idx: "index < length (watch_lists s)"
    using watchlist_index_bound [OF assms(4)] assms(1,3) by (simp add: inv_lengths)
  have cb: "indexi < length (clauses (formula s))"
    using assms(1,5) idx by (auto simp: inv_def watch_ok_def)
  show ?thesis
  proof (cases "satisfied ?c")
    case True
    with assms show ?thesis by (auto simp: visit_clause_def Let_def)
  next
    case unflagged: False
    show ?thesis
    proof (cases "var ?other = 0")
      case True
      then have "sole s oplit indexi" by (simp add: sole_def)
      with assms(2,4,5) cb unflagged have "\<not> lit_true (assignments s) oplit"
        unfolding lone_ok_def assms(3) by blast
      with True unflagged assms(2,6) show ?thesis
        by (auto simp: visit_clause_def Let_def split: if_splits)
    next
      case other: False
      from find_other_result [OF refl other]
      have o: "?other \<in> set (literals ?c)"
        "indexi \<in> set (watch_lists s ! watchlist_index ?other ?n)"
        "\<not> (var ?other = var oplit \<and> neg ?other = neg oplit)"
        by simp_all
      have wo: "wf_lit ?n ?other" using wf_clause_lit [OF assms(1) cb o(1)] .
      have ko: "watchlist_index ?other ?n \<noteq> index"
        using watchlist_index_inj [OF wo assms(4)] o(3) assms(3) by blast
      show ?thesis
      proof (cases "lit_true (assignments s) ?other")
        case True
        with unflagged other assms show ?thesis
          by (auto simp: visit_clause_def Let_def)
      next
        case nottrue: False
        show ?thesis
        proof (cases "find_replacement (assignments s) ?n index ?other (literals ?c)")
          case (Some nlit)
          from find_replacement_result [OF Some]
          have nl: "nlit \<in> set (literals ?c)" "\<not> (var nlit = var ?other \<and> neg nlit = neg ?other)"
            by simp_all
          have res: "s' = watchtable_add (watchlist_index nlit ?n) indexi (watchtable_remove index indexi s)"
              "q' = q"
            using assms(6) unflagged other nottrue Some by (simp_all add: visit_clause_def Let_def)
          from lone_ok_relocate [OF assms(1,2) idx cb o(1,2) ko nl]
          show ?thesis unfolding res by (simp add: frame)
        next
          case None
          show ?thesis
          proof (cases "assignments s ! var ?other = - 1")
            case True
            then have res: "s' = force_literal ?other s"
              using assms(6) unflagged other nottrue None by (simp_all add: visit_clause_def Let_def)
            from lone_ok_force_literal [OF assms(1,2) True wo]
              unassigned_force_literal [OF assms(1) True wo]
            show ?thesis unfolding res by simp
          next
            case False
            then show ?thesis
              using assms(6) unflagged other nottrue None by (simp_all add: visit_clause_def Let_def)
          qed
        qed
      qed
    qed
  qed
qed

lemma unassigned_same:
  "numVars (formula t) = numVars (formula s) \<Longrightarrow> assignments t = assignments s \<Longrightarrow>
   unassigned t = unassigned s"
  by (simp add: unassigned_def)

lemma visit_watchers_progress:
  "inv s \<Longrightarrow> lone_ok s \<Longrightarrow> index = watchlist_index oplit (numVars (formula s)) \<Longrightarrow>
   wf_lit (numVars (formula s)) oplit \<Longrightarrow> wf_queue s q \<Longrightarrow>
   visit_watchers index oplit i s q = (True, s', q') \<Longrightarrow>
   lone_ok s' \<and>
   (unassigned s' < unassigned s \<or>
    (assignments s' = assignments s \<and>
     (\<exists>m. q' = q @ replicate m oplit \<and> (0 < m \<longrightarrow> \<not> lit_true (assignments s) oplit))))"
proof (induction index oplit i s q rule: visit_watchers.induct)
  case (1 index oplit i st queue)
  note inv = "1.prems"(1) and lone = "1.prems"(2) and ix = "1.prems"(3) and wo = "1.prems"(4)
    and wq = "1.prems"(5) and run = "1.prems"(6)
  have idx: "index < length (watch_lists st)"
    using watchlist_index_bound [OF wo] inv ix by (simp add: inv_lengths)
  show ?case
  proof (cases "i < length (watch_lists st ! index)")
    case False
    with run have "s' = st" "q' = queue"
      by (simp_all add: visit_watchers.simps [of index oplit i st queue])
    with lone show ?thesis by simp
  next
    case True
    obtain ok1 s1 q1 where v: "visit_clause index oplit (watch_lists st ! index ! i) st queue = (ok1, s1, q1)"
      by (cases "visit_clause index oplit (watch_lists st ! index ! i) st queue") auto
    have ok1: ok1
    proof (rule ccontr)
      assume "\<not> ok1"
      with True v run show False
        by (simp add: visit_watchers.simps [of index oplit i st queue])
    qed
    have mem: "watch_lists st ! index ! i \<in> set (watch_lists st ! index)"
      using True by simp
    from visit_clause_inv [OF inv idx mem wo wq v]
    have s1: "reach st s1" "inv s1" "wf_queue s1 q1" by simp_all
    have n: "numVars (formula s1) = numVars (formula st)"
      using reach_literals [OF s1(1)] by simp
    from visit_clause_progress [OF inv lone ix wo mem v [unfolded ok1 [THEN eqTrueI]]]
    have l1: "lone_ok s1"
      and p1: "unassigned s1 < unassigned st \<or>
        (assignments s1 = assignments st \<and>
         (q1 = queue \<or> (q1 = queue @ [oplit] \<and> \<not> lit_true (assignments st) oplit)))"
      by simp_all
    from True v ok1 run
    have rec: "visit_watchers index oplit (i + 1) s1 q1 = (True, s', q')"
      by (simp add: visit_watchers.simps [of index oplit i st queue])
    have ix1: "index = watchlist_index oplit (numVars (formula s1))"
      using ix n by simp
    have wo1: "wf_lit (numVars (formula s1)) oplit"
      using wo n by simp
    from "1.IH" [OF True v [symmetric] refl ok1 s1(2) l1 ix1 wo1 s1(3) rec]
    have l': "lone_ok s'"
      and p': "unassigned s' < unassigned s1 \<or>
        (assignments s' = assignments s1 \<and>
         (\<exists>m. q' = q1 @ replicate m oplit \<and> (0 < m \<longrightarrow> \<not> lit_true (assignments s1) oplit)))"
      by simp_all
    have idx1: "index < length (watch_lists s1)"
      using idx inv s1(2) n by (simp add: inv_lengths)
    have n': "numVars (formula s') = numVars (formula s1)"
      using visit_watchers_inv [OF s1(2) idx1 wo1 s1(3) rec] reach_literals [of s1 s'] by blast
    have le1: "unassigned s1 \<le> unassigned st"
      using p1 unassigned_same [OF n] by auto
    have le': "unassigned s' \<le> unassigned s1"
      using p' unassigned_same [OF n'] by auto
    show ?thesis
    proof (cases "unassigned s' < unassigned st")
      case True
      with l' show ?thesis by simp
    next
      case False
      with le1 le' have e: "\<not> unassigned s' < unassigned s1" "\<not> unassigned s1 < unassigned st"
        by simp_all
      with p' obtain m where m: "assignments s' = assignments s1" "q' = q1 @ replicate m oplit"
        "0 < m \<longrightarrow> \<not> lit_true (assignments s1) oplit" by blast
      from e p1 have a1: "assignments s1 = assignments st"
        and q1: "q1 = queue \<or> (q1 = queue @ [oplit] \<and> \<not> lit_true (assignments st) oplit)"
        by simp_all
      from q1 show ?thesis
      proof
        assume "q1 = queue"
        with m a1 l' show ?thesis by auto
      next
        assume q: "q1 = queue @ [oplit] \<and> \<not> lit_true (assignments st) oplit"
        then have "q' = queue @ replicate (Suc m) oplit"
          using m(2) by simp
        moreover have "0 < Suc m \<longrightarrow> \<not> lit_true (assignments st) oplit"
          using q by simp
        ultimately have "\<exists>k. q' = queue @ replicate k oplit \<and> (0 < k \<longrightarrow> \<not> lit_true (assignments st) oplit)"
          by blast
        with m(1) a1 l' show ?thesis by simp
      qed
    qed
  qed
qed

lemma pending_append: "pending a (xs @ ys) = pending a xs + pending a ys"
  by (simp add: pending_def)

lemma pending_replicate_false: "lit_false a l \<Longrightarrow> pending a (replicate m l) = 0"
  by (simp add: pending_def)

lemma propagate_literal_progress:
  assumes "inv s" and "lone_ok s" and "wf_lit (numVars (formula s)) l" and "wf_queue s rest"
    and "propagate_literal l s rest = (True, s', q')"
  shows "lone_ok s' \<and>
     ((s', q'), (s, l # rest)) \<in>
        measures [\<lambda>(s, q). unassigned s, \<lambda>(s, q). pending (assignments s) q, \<lambda>(s, q). length q]"
proof -
  let ?s1 = "if assignments s ! var l = - 1 then force_literal l s else s"
  let ?oplit = "\<lparr>var = var l, neg = \<not> neg l\<rparr>"
  have s1: "reach s ?s1 \<and> inv ?s1"
    using force_literal_inv [OF assms(1) _ assms(3)] assms(1) by (simp add: reach_refl)
  then have n: "numVars (formula ?s1) = numVars (formula s)"
    using reach_literals [of s ?s1] by blast
  have l1: "lone_ok ?s1"
    using lone_ok_force_literal [OF assms(1,2) _ assms(3)] assms(2) by simp
  have wo: "wf_lit (numVars (formula ?s1)) ?oplit"
    using assms(3) unfolding n by (simp add: wf_lit_def)
  have idx: "watchlist_index ?oplit (numVars (formula ?s1)) < length (watch_lists ?s1)"
    using watchlist_index_bound [OF wo] s1 by (simp add: inv_lengths)
  have q: "wf_queue ?s1 rest"
    using assms(4) n by (simp add: wf_queue_def)
  have run: "visit_watchers (watchlist_index ?oplit (numVars (formula ?s1))) ?oplit 0 ?s1 rest = (True, s', q')"
    using assms(5) by (simp add: propagate_literal_def Let_def)
  have n': "numVars (formula s') = numVars (formula ?s1)"
    using visit_watchers_inv [OF _ idx wo q run] s1 reach_literals [of ?s1 s'] by blast
  from visit_watchers_progress [OF _ l1 refl wo q run] s1
  have l': "lone_ok s'"
    and p: "unassigned s' < unassigned ?s1 \<or>
      (assignments s' = assignments ?s1 \<and>
       (\<exists>m. q' = rest @ replicate m ?oplit \<and> (0 < m \<longrightarrow> \<not> lit_true (assignments ?s1) ?oplit)))"
    by simp_all
  have le: "unassigned s' \<le> unassigned ?s1"
    using p unassigned_same [OF n'] by auto
  have "unassigned s' < unassigned s \<or>
     (unassigned s' = unassigned s \<and>
      (pending (assignments s') q' < pending (assignments s) (l # rest) \<or>
       (pending (assignments s') q' = pending (assignments s) (l # rest) \<and> length q' < length (l # rest))))"
  proof (cases "assignments s ! var l = - 1")
    case True
    with le unassigned_force_literal [OF assms(1) True assms(3)] show ?thesis by simp
  next
    case False
    have "1 \<le> var l \<and> var l \<le> numVars (formula s)"
      using assms(3) by (simp add: wf_lit_def)
    with assms(1) False have val: "assignments s ! var l = 0 \<or> assignments s ! var l = 1"
      unfolding inv_def vals_ok_def by blast
    show ?thesis
    proof (cases "unassigned s' < unassigned s")
      case True
      then show ?thesis by simp
    next
      case nless: False
      with p False obtain m where m: "assignments s' = assignments s" "q' = rest @ replicate m ?oplit"
        "0 < m \<longrightarrow> \<not> lit_true (assignments s) ?oplit" by auto
      have u: "unassigned s' = unassigned s"
        using unassigned_same [of s' s] n' n m(1) False by simp
      show ?thesis
      proof (cases "m = 0")
        case True
        with m u show ?thesis by (auto simp: pending_def)
      next
        case False
        with m(3) have "\<not> lit_true (assignments s) ?oplit" by simp
        with val have f: "lit_false (assignments s) ?oplit" "\<not> lit_false (assignments s) l"
          by (auto simp: lit_true_def lit_false_def)
        have "pending (assignments s') q' = pending (assignments s) rest"
          unfolding m by (simp add: pending_append pending_replicate_false [OF f(1)])
        moreover have "pending (assignments s) (l # rest) = Suc (pending (assignments s) rest)"
          using f(2) by (simp add: pending_def)
        ultimately show ?thesis using u by simp
      qed
    qed
  qed
  with l' show ?thesis by auto
qed

lemma propagate_loop_terminates_aux:
  "inv (fst p) \<longrightarrow> lone_ok (fst p) \<longrightarrow> wf_queue (fst p) (snd p) \<longrightarrow>
   (\<exists>r. propagate_loop (fst p) (snd p) = Some r)"
proof (rule wf_induct [where a = p and
      r = "measures [\<lambda>(s, q). unassigned s, \<lambda>(s, q). pending (assignments s) q, \<lambda>(s, q). length q]"])
  show "wf (measures [\<lambda>(s, q). unassigned s, \<lambda>(s, q). pending (assignments s) q, \<lambda>(s, q). length q])"
    by (rule wf_measures)
next
  fix x :: "State \<times> Literal list"
  assume IH: "\<forall>y. (y, x) \<in> measures [\<lambda>(s, q). unassigned s, \<lambda>(s, q). pending (assignments s) q, \<lambda>(s, q). length q]
      \<longrightarrow> inv (fst y) \<longrightarrow> lone_ok (fst y) \<longrightarrow> wf_queue (fst y) (snd y) \<longrightarrow>
          (\<exists>r. propagate_loop (fst y) (snd y) = Some r)"
  obtain s q where x: "x = (s, q)" by (cases x)
  show "inv (fst x) \<longrightarrow> lone_ok (fst x) \<longrightarrow> wf_queue (fst x) (snd x) \<longrightarrow>
      (\<exists>r. propagate_loop (fst x) (snd x) = Some r)"
    unfolding x fst_conv snd_conv
  proof (intro impI)
    assume i: "inv s" and lo: "lone_ok s" and w: "wf_queue s q"
    show "\<exists>r. propagate_loop s q = Some r"
    proof (cases q)
      case Nil
      then show ?thesis by (auto simp: propagate_loop.simps [of s "[]"])
    next
      case (Cons l rest)
      obtain ok s' q' where pl: "propagate_literal l s rest = (ok, s', q')"
        by (cases "propagate_literal l s rest") auto
      have wl: "wf_lit (numVars (formula s)) l" "wf_queue s rest"
        using w Cons by (simp_all add: wf_queue_def)
      show ?thesis
      proof (cases ok)
        case False
        with Cons pl show ?thesis by (auto simp: propagate_loop.simps [of s "l # rest"])
      next
        case True
        from propagate_literal_inv [OF i wl pl]
        have s': "inv s'" "wf_queue s' q'" by simp_all
        from propagate_literal_progress [OF i lo wl pl [unfolded True [THEN eqTrueI]]]
        have l': "lone_ok s'" and
          less: "((s', q'), x) \<in> measures [\<lambda>(s, q). unassigned s, \<lambda>(s, q). pending (assignments s) q, \<lambda>(s, q). length q]"
          unfolding x Cons by blast+
        from IH [rule_format, OF less] s' l' obtain r where "propagate_loop s' q' = Some r"
          by auto
        with Cons pl True show ?thesis by (auto simp: propagate_loop.simps [of s "l # rest"])
      qed
    qed
  qed
qed

lemma propagate_loop_terminates:
  "inv s \<Longrightarrow> lone_ok s \<Longrightarrow> wf_queue s q \<Longrightarrow> \<exists>r. propagate_loop s q = Some r"
  using propagate_loop_terminates_aux [of "(s, q)"] by simp

lemma unit_propagate_terminates:
  assumes "inv s" and "true_flagged s"
  shows "\<exists>ok s'. unit_propagate_2watchlit s = Some (ok, s')"
  using propagate_loop_terminates [OF assms(1) true_flagged_lone_ok [OF assms] wf_seed_queue [OF assms(1)]]
  by (auto simp: unit_propagate_2watchlit_def)

lemma reach_assigned:
  "reach b s \<Longrightarrow> assignments b ! v \<noteq> - 1 \<Longrightarrow> assignments s ! v \<noteq> - 1"
proof (induction rule: reach.induct)
  case reach_refl
  then show ?case by simp
next
  case (reach_op s op)
  then have a: "assignments s ! v \<noteq> - 1" by simp
  show ?case
  proof (cases op)
    case (Assign w x)
    with reach_op.hyps(2) a have "w \<noteq> v" by auto
    with a Assign show ?thesis by (simp add: frame)
  qed (use a in \<open>simp_all add: frame\<close>)
next
  case (reach_jump s t)
  then show ?case by (simp add: rewound_def)
qed

lemma reach_unassigned: "reach b s \<Longrightarrow> unassigned s \<le> unassigned b"
  using reach_literals [of b s] reach_assigned [of b s] by (intro unassigned_le) auto

lemma satisfy_step_frame:
  "numVars (formula (satisfy_step i s)) = numVars (formula s)"
  "length (clauses (formula (satisfy_step i s))) = length (clauses (formula s))"
  "literals (clause_at (satisfy_step i s) j) = literals (clause_at s j)"
  "j < length (clauses (formula s)) \<Longrightarrow>
     satisfied (clause_at (satisfy_step i s) j) =
       (satisfied (clause_at s j) \<or>
        (i = j \<and> list_ex (lit_true (assignments s)) (literals (clause_at s j))))"
  by (auto simp: satisfy_step_def frame satisfied_set_satisfied)

lemma fold_satisfy_step_frame:
  "assignments (fold satisfy_step is s) = assignments s \<and>
   numVars (formula (fold satisfy_step is s)) = numVars (formula s) \<and>
   length (clauses (formula (fold satisfy_step is s))) = length (clauses (formula s)) \<and>
   (\<forall>j. literals (clause_at (fold satisfy_step is s) j) = literals (clause_at s j)) \<and>
   (\<forall>j < length (clauses (formula s)).
      satisfied (clause_at (fold satisfy_step is s) j) =
        (satisfied (clause_at s j) \<or>
         (j \<in> set is \<and> list_ex (lit_true (assignments s)) (literals (clause_at s j)))))"
proof (induction "is" arbitrary: s)
  case Nil
  show ?case by simp
next
  case (Cons i "is")
  from Cons.IH [of "satisfy_step i s"] show ?case
    by (auto simp: frame satisfy_step_frame)
qed

lemma decide_frame:
  "assignments (decide x v s) = (assignments s)[x := v]"
  "numVars (formula (decide x v s)) = numVars (formula s)"
  using fold_satisfy_step_frame
    [of "[0..<length (clauses (formula s))]" "push_assignment x (set_assignment x v s)"]
  by (simp_all add: decide_def satisfy_clauses_after_assignment_def frame)

lemma true_flagged_decide: "true_flagged (decide x v s)"
  using fold_satisfy_step_frame
    [of "[0..<length (clauses (formula s))]" "push_assignment x (set_assignment x v s)"]
  by (simp add: true_flagged_def decide_def satisfy_clauses_after_assignment_def frame)

lemma unassigned_decide:
  assumes "inv s" and "assignments s ! x = - 1" and "1 \<le> x" and "x \<le> numVars (formula s)"
    and "v \<noteq> - 1"
  shows "unassigned (decide x v s) < unassigned s"
proof (rule unassigned_assign)
  show "assignments (decide x v s) = (assignments s)[x := v]" by (rule decide_frame)
  show "x < length (assignments s)" using assms(1,4) by (simp add: inv_def wf_state_def)
qed (use assms in \<open>simp_all add: decide_frame\<close>)

lemma pick_in_range:
  assumes "pick_unassigned_variable vs s = Some x" and "\<forall>y \<in> set vs. y \<le> numVars (formula s)"
  shows "1 \<le> x \<and> x \<le> numVars (formula s) \<and> assignments s ! x = - 1"
proof -
  from assms(1) have "assignments s ! x = - 1" "x \<in> set (take (numVars (formula s)) vs)" "x \<noteq> 0"
    by (auto simp: pick_unassigned_variable_def dest: pick_loop_Some)
  with assms(2) set_take_subset [of "numVars (formula s)" vs] show ?thesis by auto
qed

lemma true_flagged_polls [simp]: "true_flagged (s\<lparr>polls := k\<rparr>) = true_flagged s"
  by (simp add: true_flagged_def clause_at_def)

lemma unassigned_polls [simp]: "unassigned (s\<lparr>polls := k\<rparr>) = unassigned s"
  by (simp add: unassigned_def)

lemma dpll_terminates:
  "inv st0 \<Longrightarrow> true_flagged st0 \<Longrightarrow> \<forall>y \<in> set vs. y \<le> numVars (formula st0) \<Longrightarrow>
   \<exists>r. dpll tmo vs d st0 = Some r \<and> ((\<forall>k. \<not> tmo k) \<longrightarrow> fst r \<noteq> TIMEOUT)"
proof (induction "unassigned st0" arbitrary: st0 d rule: less_induct)
  case less
  note i0 = less.prems(1) and tf = less.prems(2) and vs = less.prems(3)
  let ?st = "st0\<lparr>polls := polls st0 + 1\<rparr>"
  have ist: "inv ?st" using i0 poll_jump by (rule inv_rewound)
  show ?case
  proof (cases "tmo (polls st0)")
    case True
    then show ?thesis by (auto simp: dpll.simps [of tmo vs d st0] Let_def)
  next
    case notmo: False
    from unit_propagate_terminates [OF ist] tf obtain ok1 st1 where
      up: "unit_propagate_2watchlit ?st = Some (ok1, st1)" by auto
    from unit_propagate_inv [OF up ist] have r1: "reach ?st st1" and i1: "inv st1" by simp_all
    show ?thesis
    proof (cases ok1)
      case False
      from undo_to_checkpoint_reach [OF r1] obtain t where
        t: "undo_to_checkpoint (length (stack ?st)) st1 = Some t" by blast
      with notmo up False show ?thesis
        by (auto simp: dpll.simps [of tmo vs d st0] Let_def)
    next
      case ok1: True
      obtain ok2 st2 where pe: "pure_literal_elimination st1 = (ok2, st2)"
        by (cases "pure_literal_elimination st1") auto
      then have ok2: "ok2" by (simp add: pure_literal_elimination_def Let_def)
      from pure_literal_elimination_inv [OF i1] pe have r2: "reach st1 st2" and i2: "inv st2"
        by simp_all
      obtain all st3 where sw: "sweep st2 = (all, st3)"
        by (cases "sweep st2") auto
      from sweep_inv [OF i2 sw] have r3: "reach st2 st3" and i3: "inv st3" by simp_all
      have rs3: "reach ?st st3" using r1 r2 r3 by (blast intro: reach_trans)
      have n3: "numVars (formula st3) = numVars (formula st0)"
        using reach_literals [OF rs3] by simp
      have u3: "unassigned st3 \<le> unassigned st0"
        using reach_unassigned [OF rs3] by simp
      show ?thesis
      proof (cases all)
        case True
        with notmo up ok1 pe ok2 sw show ?thesis
          by (auto simp: dpll.simps [of tmo vs d st0] Let_def)
      next
        case notall: False
        show ?thesis
        proof (cases "pick_unassigned_variable vs st3")
          case None
          with notmo up ok1 pe ok2 sw notall show ?thesis
            by (auto simp: dpll.simps [of tmo vs d st0] Let_def)
        next
          case (Some x)
          from pick_in_range [OF Some] vs n3
          have x: "1 \<le> x" "x \<le> numVars (formula st3)" "assignments st3 ! x = - 1" by simp_all
          from decide_inv [OF i3 x(3)] have rd0: "reach st3 (decide x 0 st3)"
            and id0: "inv (decide x 0 st3)" by simp_all
          have "unassigned (decide x 0 st3) < unassigned st0"
            using unassigned_decide [OF i3 x(3,1,2), of 0] u3 by simp
          from less.hyps [OF this id0 true_flagged_decide, of "d + 1"] vs n3
          obtain result1 st4 where c1: "dpll tmo vs (d + 1) (decide x 0 st3) = Some (result1, st4)"
            and t1: "(\<forall>k. \<not> tmo k) \<longrightarrow> result1 \<noteq> TIMEOUT"
            by (auto simp: decide_frame)
          from dpll_inv_aux [OF c1] id0 have r4: "reach (decide x 0 st3) st4" by simp
          have r34: "reach st3 st4" using rd0 r4 by (rule reach_trans)
          show ?thesis
          proof (cases "result1 = UNSAT")
            case False
            with notmo up ok1 pe ok2 sw notall Some c1 t1 show ?thesis
              by (auto simp: dpll.simps [of tmo vs d st0] Let_def)
          next
            case u1: True
            from undo_to_checkpoint_reach [OF r34] obtain st5 where
              t5: "undo_to_checkpoint (length (stack st3)) st4 = Some st5" "rewound st3 st5"
                "stack st5 = stack st3"
              by blast
            have i5: "inv st5" using i3 t5(2) by (rule inv_rewound)
            have a5: "assignments st5 = assignments st3" "numVars (formula st5) = numVars (formula st3)"
              using t5(2) by (simp_all add: rewound_def)
            have ux5: "assignments st5 ! x = - 1" using x(3) a5 by simp
            from decide_inv [OF i5 ux5] have rd1: "reach st5 (decide x 1 st5)"
              and id1: "inv (decide x 1 st5)" by simp_all
            have "unassigned st5 = unassigned st3"
              using a5 by (intro unassigned_same) simp_all
            then have "unassigned (decide x 1 st5) < unassigned st0"
              using unassigned_decide [OF i5 ux5 x(1), of 1] x(2) a5 u3 by simp
            from less.hyps [OF this id1 true_flagged_decide, of "d + 1"] vs n3 a5
            obtain result2 st6 where c2: "dpll tmo vs (d + 1) (decide x 1 st5) = Some (result2, st6)"
              and t2: "(\<forall>k. \<not> tmo k) \<longrightarrow> result2 \<noteq> TIMEOUT"
              by (auto simp: decide_frame)
            from dpll_inv_aux [OF c2] id1 have r6: "reach (decide x 1 st5) st6" by simp
            have "reach ?st st5" using rs3 t5(2,3) by (rule reach_jump)
            with rd1 r6 have "reach ?st st6" by (blast intro: reach_trans)
            from undo_to_checkpoint_reach [OF this] obtain st7 where
              t7: "undo_to_checkpoint (length (stack ?st)) st6 = Some st7" by blast
            from notmo up ok1 pe ok2 sw notall Some c1 u1 t5(1) c2 t2 t7 show ?thesis
              by (auto simp: dpll.simps [of tmo vs d st0] Let_def)
          qed
        qed
      qed
    qed
  qed
qed

lemma true_flagged_initial_state:
  assumes "parsed f"
  shows "true_flagged (initial_state a0 f)"
  unfolding true_flagged_def
proof (intro allI impI)
  fix i
  assume i: "i < length (clauses (formula (initial_state a0 f)))"
    and t: "list_ex (lit_true (assignments (initial_state a0 f))) (literals (clause_at (initial_state a0 f) i))"
  from t obtain l where l: "l \<in> set (literals (clauses f ! i))"
      "lit_true (a0 # replicate (numVars f) (- 1)) l"
    by (auto simp: list_ex_iff initial_state_def clause_at_def)
  from i l(1) assms have "wf_lit (numVars f) l"
    using nth_mem [of i "clauses f"] by (fastforce simp: parsed_def list_all_iff initial_state_def)
  then obtain w where "var l = Suc w" "w < numVars f"
    by (cases "var l") (auto simp: wf_lit_def)
  with l(2) show "satisfied (clause_at (initial_state a0 f) i)"
    by (simp add: lit_true_def)
qed

lemma true_literals_satisfiable:
  assumes "list_all (\<lambda>c. list_ex (lit_true a) (literals c)) (clauses f)"
  shows "satisfiable f"
proof -
  have "lit_holds (\<lambda>v. a ! v = 1) l" if "lit_true a l" for l
    using that by (auto simp: lit_true_def lit_holds_def)
  with assms have "list_all (clause_holds (\<lambda>v. a ! v = 1)) (clauses f)"
    by (auto simp: list_all_iff list_ex_iff clause_holds_def)
  then show ?thesis by (auto simp: satisfiable_def)
qed

lemma numVars_remove_supersets [simp]: "numVars (remove_supersets f) = numVars f"
  by (simp add: remove_supersets_def Let_def)

lemma solve_terminates:
  assumes "parsed f"
    and "sorts qs (compare_desc (count_occurrences (remove_supersets f))) [0..<numVars f + 1]"
  shows "\<exists>r. solve qs a0 tmo f = Some r \<and> ((\<forall>k. \<not> tmo k) \<longrightarrow> fst r \<noteq> TIMEOUT)"
proof -
  let ?g = "remove_supersets f"
  have p: "parsed ?g" using assms(1) by (rule parsed_remove_supersets)
  have m: "mset (var_order qs ?g) = mset [0..<numVars f + 1]"
    using assms(2) by (simp add: sorts_def var_order_def get_sorted_indices_def)
  have "\<forall>y \<in> set (var_order qs ?g). y \<le> numVars (formula (initial_state a0 ?g))"
    using set_upt_mset [OF m] by (simp add: initial_state_def)
  from dpll_terminates [OF inv_initial_state [OF p] true_flagged_initial_state [OF p] this]
  show ?thesis by (simp add: solve_def Let_def)
qed

text \<open>
  C3. For a parsed formula that no truth assignment satisfies, when the clock never
  reaches the deadline and the library's sort does its duty on the one call \<open>main\<close>
  makes, the solver returns, and its verdict is UNSAT. The propagator's loop ends
  because every turn assigns a variable, or leaves fewer true literals in the queue, or
  a shorter queue; a call of \<open>dpll\<close> ends because each decision assigns one more of the
  variables 1 to \<open>numVars\<close>.
\<close>

theorem C3_refutation_complete:
  assumes "parsed f" and "\<not> satisfiable f"
    and "sorts qs (compare_desc (count_occurrences (remove_supersets f))) [0..<numVars f + 1]"
  shows "\<exists>st. solve qs a0 never f = Some (UNSAT, st)"
proof -
  from solve_terminates [OF assms(1,3), of a0 never] obtain v st where
    r: "solve qs a0 never f = Some (v, st)" and t: "v \<noteq> TIMEOUT"
    by (auto simp: never_def)
  have "v \<noteq> SAT"
  proof
    assume "v = SAT"
    with r have "solve qs a0 never f = Some (SAT, st)" by simp
    from true_literals_satisfiable [OF solve_SAT_true [OF assms(1) this]] assms(2)
    show False by simp
  qed
  with t have "v = UNSAT" by (cases v) simp_all
  with r show ?thesis by simp
qed

text \<open>The theorem on \<open>1 \<or> 2\<close>, \<open>\<not>1 \<or> 2\<close>, \<open>1 \<or> \<not>2\<close>, \<open>\<not>1 \<or> \<not>2\<close> with the stable
  sort.\<close>

theorem C3_witness:
  "parsed (cnf 2 [[1, 2], [-1, 2], [1, -2], [-1, -2]]) \<and>
   \<not> satisfiable (cnf 2 [[1, 2], [-1, 2], [1, -2], [-1, -2]]) \<and>
   sorts stable_qsort
     (compare_desc (count_occurrences (remove_supersets (cnf 2 [[1, 2], [-1, 2], [1, -2], [-1, -2]]))))
     [0..<numVars (cnf 2 [[1, 2], [-1, 2], [1, -2], [-1, -2]]) + 1] \<and>
   (\<exists>st. solve stable_qsort 0 never (cnf 2 [[1, 2], [-1, 2], [1, -2], [-1, -2]]) = Some (UNSAT, st)) \<and>
   map_option fst (solve stable_qsort 0 never (cnf 2 [[1, 2], [-1, 2], [1, -2], [-1, -2]])) = Some UNSAT"
proof -
  let ?f = "cnf 2 [[1, 2], [-1, 2], [1, -2], [-1, -2]]"
  have p: "parsed ?f" by code_simp
  have u: "\<not> satisfiable ?f"
  proof
    assume "satisfiable ?f"
    then obtain A where "list_all (clause_holds A) (clauses ?f)"
      by (auto simp: satisfiable_def)
    then show False
      by (simp add: cnf_def cls_def dimacs_lit_def clause_holds_def lit_holds_def) blast
  qed
  have "sorted_wrt (\<lambda>a b. compare_desc (count_occurrences (remove_supersets ?f)) a b \<le> 0)
     (stable_qsort (compare_desc (count_occurrences (remove_supersets ?f))) [0..<numVars ?f + 1])"
    by code_simp
  then have s: "sorts stable_qsort (compare_desc (count_occurrences (remove_supersets ?f)))
      [0..<numVars ?f + 1]"
    by (simp only: sorts_def mset_stable_qsort simp_thms)
  have e: "map_option fst (solve stable_qsort 0 never ?f) = Some UNSAT"
    by code_simp
  from p u s e C3_refutation_complete [OF p u s, of 0] show ?thesis by blast
qed

section \<open>The calls of a run\<close>





section \<open>Seeding in a run\<close>



section \<open>The verdict of a call whose sweep leaves a falsified clause\<close>












end
